theory Spec2Isabelle
  imports Complex_Main "HOL-Library.Log_Nat" "HOL-Library.Word"
begin

section \<open>Binary64 arithmetic\<close>

text \<open>
  The script \<^verbatim>\<open>create_TIPMIP_emission_file.py\<close> computes with Python floats and
  NumPy \<^verbatim>\<open>float64\<close> arrays, that is, with IEEE 754 binary64 numbers under
  round-to-nearest, ties-to-even. A finite number is carried by the rational it denotes;
  the negative zero, the two infinities and NaN are values of their own. Every operation
  computes the exact rational result and rounds it to the 53-bit significand, with gradual
  underflow below \<open>2\<^sup>-\<^sup>1\<^sup>0\<^sup>2\<^sup>2\<close> and overflow to infinity above the largest finite number.
\<close>

datatype float64 = Finite rat | NegZero | PInf | NInf | NaN

text \<open>\<open>expo q\<close> is the binary exponent of a positive rational: \<open>2\<^sup>e \<le> q < 2\<^sup>e\<^sup>+\<^sup>1\<close>.\<close>

definition expo :: "rat \<Rightarrow> int" where
  "expo q = (let (a, b) = quotient_of q; k = bitlen a - bitlen b
             in if 2 powi k \<le> q then k else k - 1)"

definition round_even :: "rat \<Rightarrow> int" where
  "round_even y = (let f = \<lfloor>y\<rfloor>; r = y - of_int f
                   in if r < 1 / 2 then f else if 1 / 2 < r then f + 1
                      else if even f then f else f + 1)"

text \<open>Rounding of a non-negative rational to 53 significant bits, exponent unbounded above.\<close>

definition rnd_rat :: "rat \<Rightarrow> rat" where
  "rnd_rat q = (if q = 0 then 0
                else let p = max (expo q - 52) (- 1074)
                     in of_int (round_even (q / 2 powi p)) * 2 powi p)"

definition max_finite :: rat where
  "max_finite = (2 ^ 53 - 1) * 2 ^ 971"

text \<open>\<open>round64 neg q\<close> rounds the exact result \<open>q\<close>; \<open>neg\<close> is its sign, which a result
  that rounds to zero or overflows keeps.\<close>

definition round64 :: "bool \<Rightarrow> rat \<Rightarrow> float64" where
  "round64 neg q = (let r = rnd_rat \<bar>q\<bar> in
     if max_finite < r then (if neg then NInf else PInf)
     else if r = 0 then (if neg then NegZero else Finite 0)
     else Finite (if neg then - r else r))"

fun valof :: "float64 \<Rightarrow> rat" where
  "valof (Finite q) = q"
| "valof _ = 0"

fun is_finite :: "float64 \<Rightarrow> bool" where
  "is_finite (Finite q) = True"
| "is_finite NegZero = True"
| "is_finite _ = False"

fun is_inf :: "float64 \<Rightarrow> bool" where
  "is_inf PInf = True"
| "is_inf NInf = True"
| "is_inf _ = False"

fun is_zero :: "float64 \<Rightarrow> bool" where
  "is_zero (Finite q) = (q = 0)"
| "is_zero NegZero = True"
| "is_zero _ = False"

fun sign_neg :: "float64 \<Rightarrow> bool" where
  "sign_neg (Finite q) = (q < 0)"
| "sign_neg NegZero = True"
| "sign_neg NInf = True"
| "sign_neg _ = False"

definition inf_of :: "bool \<Rightarrow> float64" where
  "inf_of neg = (if neg then NInf else PInf)"

definition zero_of :: "bool \<Rightarrow> float64" where
  "zero_of neg = (if neg then NegZero else Finite 0)"

definition fneg :: "float64 \<Rightarrow> float64" where
  "fneg x = (case x of Finite q \<Rightarrow> (if q = 0 then NegZero else Finite (- q))
             | NegZero \<Rightarrow> Finite 0 | PInf \<Rightarrow> NInf | NInf \<Rightarrow> PInf | NaN \<Rightarrow> NaN)"

definition fmul :: "float64 \<Rightarrow> float64 \<Rightarrow> float64" where
  "fmul x y =
     (if x = NaN \<or> y = NaN then NaN
      else if (is_inf x \<and> is_zero y) \<or> (is_zero x \<and> is_inf y) then NaN
      else if is_inf x \<or> is_inf y then inf_of (sign_neg x \<noteq> sign_neg y)
      else round64 (sign_neg x \<noteq> sign_neg y) (valof x * valof y))"

definition fdiv :: "float64 \<Rightarrow> float64 \<Rightarrow> float64" where
  "fdiv x y =
     (if x = NaN \<or> y = NaN then NaN
      else if (is_inf x \<and> is_inf y) \<or> (is_zero x \<and> is_zero y) then NaN
      else if is_inf x \<or> is_zero y then inf_of (sign_neg x \<noteq> sign_neg y)
      else if is_inf y then zero_of (sign_neg x \<noteq> sign_neg y)
      else round64 (sign_neg x \<noteq> sign_neg y) (valof x / valof y))"

definition fadd :: "float64 \<Rightarrow> float64 \<Rightarrow> float64" where
  "fadd x y =
     (if x = NaN \<or> y = NaN then NaN
      else if is_inf x \<and> is_inf y then (if x = y then x else NaN)
      else if is_inf x then x
      else if is_inf y then y
      else if valof x + valof y = 0 then zero_of (sign_neg x \<and> sign_neg y)
      else round64 (valof x + valof y < 0) (valof x + valof y))"

definition fsub :: "float64 \<Rightarrow> float64 \<Rightarrow> float64" where
  "fsub x y = fadd x (fneg y)"

text \<open>The comparison \<^verbatim>\<open><\<close> of two floats: false as soon as one of them is NaN.\<close>

definition fless :: "float64 \<Rightarrow> float64 \<Rightarrow> bool" where
  "fless x y =
     (if x = NaN \<or> y = NaN then False
      else if x = PInf \<or> y = NInf then False
      else if x = NInf \<or> y = PInf then True
      else valof x < valof y)"

text \<open>A decimal literal of the source and the conversion of an integer to a float are
  both correctly rounded.\<close>

definition float_lit :: "rat \<Rightarrow> float64" where
  "float_lit q = round64 (q < 0) q"

definition float_of_int :: "int \<Rightarrow> float64" where
  "float_of_int n = round64 (n < 0) (of_int n)"

section \<open>Errors and indexing\<close>

datatype error =
    MissingFile string
  | KeyError string
  | IndexError
  | MissingDimension string
  | ShapeMismatch
  | ImportFailed
  | WriteFailed

definition and_then :: "error + 'a \<Rightarrow> ('a \<Rightarrow> error + 'b) \<Rightarrow> error + 'b" where
  "and_then m f = (case m of Inl e \<Rightarrow> Inl e | Inr x \<Rightarrow> f x)"

text \<open>An index into a sequence of length \<open>n\<close>: a negative index counts from the end, an
  index out of range raises.\<close>

definition py_index :: "nat \<Rightarrow> int \<Rightarrow> error + nat" where
  "py_index n i =
     (if 0 \<le> i \<and> i < int n then Inr (nat i)
      else if - int n \<le> i \<and> i < 0 then Inr (nat (int n + i))
      else Inl IndexError)"

definition getitem :: "'a list \<Rightarrow> int \<Rightarrow> error + 'a" where
  "getitem xs i = and_then (py_index (length xs) i) (\<lambda>k. Inr (xs ! k))"

definition setitem :: "'a list \<Rightarrow> int \<Rightarrow> 'a \<Rightarrow> error + 'a list" where
  "setitem xs i v = and_then (py_index (length xs) i) (\<lambda>k. Inr (xs[k := v]))"

text \<open>\<^verbatim>\<open>a[r, c]\<close> and \<^verbatim>\<open>a[r, c] = v\<close> on a two-dimensional array, \<^verbatim>\<open>a[:, c]\<close> for a column.\<close>

definition getitem2 :: "'a list list \<Rightarrow> int \<Rightarrow> int \<Rightarrow> error + 'a" where
  "getitem2 a r c = and_then (getitem a r) (\<lambda>row. getitem row c)"

definition setitem2 :: "'a list list \<Rightarrow> int \<Rightarrow> int \<Rightarrow> 'a \<Rightarrow> error + 'a list list" where
  "setitem2 a r c v =
     and_then (getitem a r) (\<lambda>row.
     and_then (setitem row c v) (\<lambda>row'. setitem a r row'))"

fun column :: "'a list list \<Rightarrow> int \<Rightarrow> error + 'a list" where
  "column [] c = Inr []"
| "column (row # rows) c =
     and_then (getitem row c) (\<lambda>x. and_then (column rows c) (\<lambda>xs. Inr (x # xs)))"

text \<open>A \<^verbatim>\<open>for\<close> loop over a list of values; an exception in the body ends it.\<close>

fun for_each :: "'a list \<Rightarrow> ('a \<Rightarrow> 's \<Rightarrow> error + 's) \<Rightarrow> 's \<Rightarrow> error + 's" where
  "for_each [] f s = Inr s"
| "for_each (x # xs) f s = and_then (f x s) (for_each xs f)"

section \<open>The computation of the arrays\<close>

definition TCRE :: float64 where
  "TCRE = float_lit (132 / 100)"

definition E :: float64 where
  "E = fdiv (fmul (float_of_int 1000) (float_lit (2 / 100))) TCRE"

definition nyears :: int where "nyears = 250"
definition nmonth :: int where "nmonth = nyears * 12"
definition nlon :: int where "nlon = 144"
definition nlat :: int where "nlat = 96"
definition start_year :: int where "start_year = 1"

text \<open>\<^verbatim>\<open>Edata = np.ones((250*12, 1)) * E\<close>: 3000 rows of one element.\<close>

definition Edata :: "float64 list list" where
  "Edata = replicate (nat (250 * 12)) (replicate 1 (fmul (float_lit 1) E))"

definition dayim :: "int list" where
  "dayim = [31, 28, 31, 30, 31, 30, 31, 31, 30, 31, 30, 31]"

fun cumsum_from :: "int \<Rightarrow> int list \<Rightarrow> int list" where
  "cumsum_from acc [] = []"
| "cumsum_from acc (x # xs) = (acc + x) # cumsum_from (acc + x) xs"

definition cumsum :: "int list \<Rightarrow> int list" where
  "cumsum xs = cumsum_from 0 xs"

definition days :: "int list" where
  "days = map (\<lambda>x. x + 1) (cumsum ([0] @ butlast dayim))"

definition daye :: "int list" where
  "daye = cumsum dayim"

definition date_mint :: "int list" where
  "date_mint = [116, 215, 316, 416, 516, 616, 716, 816, 916, 1016, 1116, 1216]"

record arrays =
  time_bnds :: "float64 list list"
  time :: "float64 list"
  date :: "32 word list"
  co2flx :: "float64 list list list"

definition init_arrays :: arrays where
  "init_arrays =
     \<lparr> time_bnds = replicate 2 (replicate (nat nmonth) (Finite 0)),
       time = replicate (nat nmonth) (Finite 0),
       date = replicate (nat nmonth) 0,
       co2flx = replicate (nat nmonth) (replicate (nat nlat) (replicate (nat nlon) (Finite 0))) \<rparr>"

text \<open>\<^verbatim>\<open>np.sum\<close> of a one-dimensional array: the reduction by addition from its
  identity.\<close>

definition np_sum :: "float64 list \<Rightarrow> float64" where
  "np_sum xs = foldl fadd (Finite 0) xs"

text \<open>The value assigned to the slice \<^verbatim>\<open>co2flx[idx, :, :]\<close> is broadcast to the shape
  \<open>(nlat, nlon)\<close>: a scalar fills it, a row of one element fills it, a row of \<open>nlon\<close>
  elements is repeated; any other length raises.\<close>

definition full :: "float64 \<Rightarrow> float64 list list" where
  "full v = replicate (nat nlat) (replicate (nat nlon) v)"

definition broadcast :: "float64 list \<Rightarrow> error + float64 list list" where
  "broadcast row =
     (if length row = 1 then Inr (full (row ! 0))
      else if int (length row) = nlon then Inr (replicate (nat nlat) row)
      else Inl ShapeMismatch)"

text \<open>The body of the two nested loops, for the year \<open>iy\<close> and the month \<open>im\<close>.\<close>

definition body :: "int \<Rightarrow> float64 \<Rightarrow> int \<Rightarrow> int \<Rightarrow> arrays \<Rightarrow> error + arrays" where
  "body sy totarea iy im s =
    (let idx = (iy - 1) * 12 + im - 1 in
     and_then (getitem days (im - 1)) (\<lambda>d.
     and_then (setitem2 (time_bnds s) 0 idx (float_of_int (365 * (iy - 1) + d - 1))) (\<lambda>tb0.
     and_then (getitem daye (im - 1)) (\<lambda>e.
     and_then (setitem2 tb0 1 idx (float_of_int (365 * (iy - 1) + e))) (\<lambda>tb.
     and_then (column tb idx) (\<lambda>col.
     and_then (setitem (time s) idx (fdiv (np_sum col) (float_lit 2))) (\<lambda>t.
     and_then (getitem date_mint (im - 1)) (\<lambda>md.
     and_then (setitem (date s) idx (word_of_int ((1850 + (iy - 1)) * 10000 + md))) (\<lambda>dte.
     and_then
       (if sy \<le> iy \<and> iy < sy + 250 then
          and_then (getitem2 tb 1 idx) (\<lambda>b1.
          and_then (getitem2 tb 0 idx) (\<lambda>b0.
          let dt = fmul (fsub b1 b0) (float_lit 86400) in
          and_then (getitem Edata (idx - (sy - 1) * 12)) (\<lambda>row.
          and_then
            (broadcast
              (map (\<lambda>x. fdiv (fdiv (fdiv (fmul (fmul x (float_lit (10 ^ 12)))
                                              (float_lit (3664 / 1000))) dt) totarea)
                              (float_of_int 12)) row))
            (\<lambda>v. setitem (co2flx s) idx v))))
        else setitem (co2flx s) idx (full (float_lit 0)))
       (\<lambda>c. Inr (s\<lparr> time_bnds := tb, time := t, date := dte, co2flx := c \<rparr>)))))))))))"

text \<open>\<^verbatim>\<open>for iy in range(1, nyears + 1): for im in range(1, 13): ...\<close>, from the arrays of
  zeros. The start year is a parameter here; the script sets it to 1.\<close>

definition fill_arrays :: "int \<Rightarrow> float64 \<Rightarrow> error + arrays" where
  "fill_arrays sy totarea =
     for_each [1..nyears] (\<lambda>iy. for_each [1..12] (body sy totarea iy)) init_arrays"


section \<open>The script from the input files to the output file\<close>

text \<open>
  What the script meets outside itself is a parameter. The five modules it imports can be
  imported or not. The area file is known by the variables it holds, and a variable only
  by the value of \<^verbatim>\<open>.sum().values\<close>, the one thing the script reads off it. The template
  holds the sizes of its dimensions, the dimension names of each variable, and its global
  attributes; the data of its variables are never read. A file that cannot be opened is
  \<open>None\<close>. The call of \<^verbatim>\<open>to_netcdf\<close> on the prepared dataset returns normally or raises,
  as the disk, the backend and the variables named in the encoding decide: \<open>writer\<close> gives
  the exception it raises, if any.
\<close>

record template =
  dim_sizes :: "string \<rightharpoonup> nat"
  var_dims :: "string \<rightharpoonup> string list"
  attrs :: "string \<rightharpoonup> string"

text \<open>The dataset on which \<^verbatim>\<open>to_netcdf\<close> is called: the sliced template with its new
  attributes, and the values in memory of its variable \<^verbatim>\<open>CO2_flux\<close>.\<close>

record netcdf =
  grid :: template
  CO2_flux :: "float64 list list list"

record env =
  importable :: bool
  area_file :: "(string \<rightharpoonup> float64) option"
  template_file :: "template option"
  writer :: "netcdf \<Rightarrow> error option"

text \<open>The end of a run: the exception that ended it, if any, and the dataset that was
  written, if \<^verbatim>\<open>to_netcdf\<close> was called and returned.\<close>

record outcome =
  raised :: "error option"
  written :: "netcdf option"

definition failed :: "error \<Rightarrow> outcome" where
  "failed e = \<lparr> raised = Some e, written = None \<rparr>"

definition area_path :: string where
  "area_path = ''/mnt/bgcdata-ns2980k/ffr043/TipESM/data/NorESM2-LM/1pctCO2/fx/areacella_fx_NorESM2-LM_1pctCO2_r1i1p1f1_gn.nc''"

definition template_path :: string where
  "template_path = ''/mnt/bgcdata-ns2980k/ffr043/TipESM/data/emissions-cmip6_CO2_anthro_surface_175001-201512_fv_1.9x2.5_c20181011.nc''"

definition import_modules :: "bool \<Rightarrow> error + unit" where
  "import_modules ok = (if ok then Inr () else Inl ImportFailed)"

definition open_file :: "string \<Rightarrow> 'a option \<Rightarrow> error + 'a" where
  "open_file path f = (case f of None \<Rightarrow> Inl (MissingFile path) | Some d \<Rightarrow> Inr d)"

definition lookup :: "(string \<rightharpoonup> 'a) \<Rightarrow> string \<Rightarrow> error + 'a" where
  "lookup d k = (case d k of None \<Rightarrow> Inl (KeyError k) | Some v \<Rightarrow> Inr v)"

definition var_shape :: "template \<Rightarrow> string list \<Rightarrow> nat list" where
  "var_shape ds names = map (\<lambda>d. case dim_sizes ds d of None \<Rightarrow> 0 | Some n \<Rightarrow> n) names"

definition shape3 :: "'a list list list \<Rightarrow> nat list" where
  "shape3 a = [length a, length (hd a), length (hd (hd a))]"

text \<open>\<^verbatim>\<open>dataset.isel(time=slice(0, 3000))\<close>: the first 3000 steps along \<^verbatim>\<open>time\<close>, or all
  of them when there are fewer; a dataset with no such dimension raises.\<close>

definition isel_time :: "template \<Rightarrow> error + template" where
  "isel_time ds =
     (case dim_sizes ds ''time'' of
        None \<Rightarrow> Inl (MissingDimension ''time'')
      | Some n \<Rightarrow> Inr (ds\<lparr> dim_sizes := (dim_sizes ds)(''time'' \<mapsto> min n 3000) \<rparr>))"

text \<open>\<^verbatim>\<open>dataset['CO2_flux'].values = co2flx\<close>: the replacement data must have the shape
  of the variable.\<close>

definition assign_values :: "template \<Rightarrow> float64 list list list \<Rightarrow> error + netcdf" where
  "assign_values ds a =
     and_then (lookup (var_dims ds) ''CO2_flux'') (\<lambda>names.
       if var_shape ds names = shape3 a then Inr \<lparr> grid = ds, CO2_flux = a \<rparr>
       else Inl ShapeMismatch)"

definition assign_attrs :: "netcdf \<Rightarrow> netcdf" where
  "assign_attrs out =
     out\<lparr> grid := (grid out)\<lparr> attrs := (attrs (grid out))
        (''data_title'' \<mapsto> ''Annual Anthropogenic Emissions of CO2 based on TCRE prepared for TIPMIP'',
         ''data_creator'' \<mapsto> ''F. Froeb (friederike.frob@uib.no)'',
         ''creation_date'' \<mapsto> ''2024-08-03'') \<rparr> \<rparr>"

text \<open>The statements of the script up to the call of \<^verbatim>\<open>to_netcdf\<close>, in their order. No
  statement stands in a \<^verbatim>\<open>try\<close> block, so the first exception ends the run.\<close>

definition prepare :: "env \<Rightarrow> error + netcdf" where
  "prepare env =
     and_then (import_modules (importable env)) (\<lambda>u.
     and_then (open_file area_path (area_file env)) (\<lambda>area.
     and_then (lookup area ''areacella'') (\<lambda>totarea.
     and_then (open_file template_path (template_file env)) (\<lambda>ds.
     and_then (lookup (var_dims ds) ''CO2_flux'') (\<lambda>co2var.
     and_then (fill_arrays start_year totarea) (\<lambda>arr.
     and_then (isel_time ds) (\<lambda>ds'.
     and_then (assign_values ds' (co2flx arr)) (\<lambda>out.
     Inr (assign_attrs out)))))))))"

definition run :: "env \<Rightarrow> outcome" where
  "run env =
     (case prepare env of
        Inl e \<Rightarrow> failed e
      | Inr out \<Rightarrow>
          (case writer env out of
             Some e \<Rightarrow> failed e
           | None \<Rightarrow> \<lparr> raised = None, written = Some out \<rparr>))"

text \<open>A template like the one the script names: monthly from 1750-01 to 2015-12, that is
  3192 time steps, on the 96 by 144 grid.\<close>

definition template_3192 :: template where
  "template_3192 =
     \<lparr> dim_sizes = [''time'' \<mapsto> 3192, ''lat'' \<mapsto> 96, ''lon'' \<mapsto> 144],
       var_dims = [''CO2_flux'' \<mapsto> [''time'', ''lat'', ''lon'']],
       attrs = Map.empty \<rparr>"

definition env_3192 :: env where
  "env_3192 =
     \<lparr> importable = True,
       area_file = Some [''areacella'' \<mapsto> Finite 510000000000000],
       template_file = Some template_3192,
       writer = (\<lambda>ds. None) \<rparr>"

section \<open>The state of the arrays after each pass of the loop\<close>

text \<open>
  The values the body of the loop stores for the year \<open>iy\<close> and the month \<open>im\<close>, written
  as the body computes them, and the arrays after the first \<open>n\<close> passes: the entries below
  \<open>n\<close> hold these values, the others are still zero.
\<close>

definition tb0_at :: "int \<Rightarrow> int \<Rightarrow> float64" where
  "tb0_at iy im = float_of_int (365 * (iy - 1) + days ! nat (im - 1) - 1)"

definition tb1_at :: "int \<Rightarrow> int \<Rightarrow> float64" where
  "tb1_at iy im = float_of_int (365 * (iy - 1) + daye ! nat (im - 1))"

definition time_at :: "int \<Rightarrow> int \<Rightarrow> float64" where
  "time_at iy im = fdiv (np_sum [tb0_at iy im, tb1_at iy im]) (float_lit 2)"

definition date_at :: "int \<Rightarrow> int \<Rightarrow> 32 word" where
  "date_at iy im = word_of_int ((1850 + (iy - 1)) * 10000 + date_mint ! nat (im - 1))"

definition flux_at :: "int \<Rightarrow> float64 \<Rightarrow> int \<Rightarrow> int \<Rightarrow> float64 list list" where
  "flux_at sy totarea iy im =
     (if sy \<le> iy \<and> iy < sy + 250 then
        full (fdiv (fdiv (fdiv (fmul (fmul (fmul (float_lit 1) E) (float_lit (10 ^ 12)))
                                      (float_lit (3664 / 1000)))
                                (fmul (fsub (tb1_at iy im) (tb0_at iy im)) (float_lit 86400)))
                          totarea)
                    (float_of_int 12))
      else full (float_lit 0))"

definition year_of :: "nat \<Rightarrow> int" where
  "year_of i = int i div 12 + 1"

definition month_of :: "nat \<Rightarrow> int" where
  "month_of i = int i mod 12 + 1"

definition upto_n :: "nat \<Rightarrow> nat \<Rightarrow> (nat \<Rightarrow> 'a) \<Rightarrow> 'a \<Rightarrow> 'a list" where
  "upto_n N n h z = map (\<lambda>i. if i < n then h i else z) [0..<N]"

definition filled :: "int \<Rightarrow> float64 \<Rightarrow> nat \<Rightarrow> arrays" where
  "filled sy totarea n =
     \<lparr> time_bnds = [upto_n 3000 n (\<lambda>i. tb0_at (year_of i) (month_of i)) (Finite 0),
                    upto_n 3000 n (\<lambda>i. tb1_at (year_of i) (month_of i)) (Finite 0)],
       time = upto_n 3000 n (\<lambda>i. time_at (year_of i) (month_of i)) (Finite 0),
       date = upto_n 3000 n (\<lambda>i. date_at (year_of i) (month_of i)) 0,
       co2flx = upto_n 3000 n (\<lambda>i. flux_at sy totarea (year_of i) (month_of i))
                  (replicate (nat nlat) (replicate (nat nlon) (Finite 0))) \<rparr>"

text \<open>The first and the last day, counted from the start of the calendar, of the month
  stored at the index \<open>n\<close>.\<close>

definition first_day :: "nat \<Rightarrow> int" where
  "first_day n = 365 * (year_of n - 1) + (days ! nat (month_of n - 1) - 1)"

definition last_day :: "nat \<Rightarrow> int" where
  "last_day n = 365 * (year_of n - 1) + daye ! nat (month_of n - 1)"

definition mid_day :: "nat \<Rightarrow> rat" where
  "mid_day n = (of_int (first_day n) + of_int (last_day n)) / 2"

text \<open>The budget of one year, \<^verbatim>\<open>E * 1e12 * 3.664\<close>, as the script's floats compute it; the
  flux of a month as claim C1 writes it; and the quantity of claim C9: the sum, over the
  twelve months of the year \<open>iy\<close>, of the stored flux times the total area times the seconds
  of the month, in exact arithmetic on the stored numbers.\<close>

definition budget :: float64 where
  "budget = fmul (fmul E (float_lit (10 ^ 12))) (float_lit (3664 / 1000))"

definition flux_rate :: "float64 \<Rightarrow> int \<Rightarrow> float64" where
  "flux_rate totarea im =
     fdiv (fdiv (fdiv budget (float_of_int (dayim ! nat (im - 1) * 86400))) totarea)
          (float_of_int 12)"

definition annual_budget :: "float64 \<Rightarrow> int \<Rightarrow> nat \<Rightarrow> nat \<Rightarrow> error + rat" where
  "annual_budget totarea iy lat lon =
     and_then (fill_arrays start_year totarea) (\<lambda>s.
       Inr (sum_list (map (\<lambda>im. valof (co2flx s ! nat ((iy - 1) * 12 + im - 1) ! lat ! lon)
                                  * valof totarea * (of_int (dayim ! nat (im - 1)) * 86400))
                          [1..12])))"

section \<open>The loop fills the arrays\<close>

lemma and_then_simps [simp]:
  "and_then (Inr x) f = f x" "and_then (Inl e) f = Inl e"
  by (simp_all add: and_then_def)

lemma getitem_ok: "0 \<le> i \<Longrightarrow> i < int (length xs) \<Longrightarrow> getitem xs i = Inr (xs ! nat i)"
  by (simp add: getitem_def py_index_def)

lemma setitem_ok: "0 \<le> i \<Longrightarrow> i < int (length xs) \<Longrightarrow> setitem xs i v = Inr (xs[nat i := v])"
  by (simp add: setitem_def py_index_def)

lemma length_upto_n [simp]: "length (upto_n N n h z) = N"
  by (simp add: upto_n_def)

lemma upto_n_step:
  "n < N \<Longrightarrow> v = h n \<Longrightarrow> (upto_n N n h z)[n := v] = upto_n N (Suc n) h z"
  by (rule nth_equalityI) (auto simp: upto_n_def nth_list_update less_Suc_eq)

lemma upto_n_nth: "i < N \<Longrightarrow> upto_n N n h z ! i = (if i < n then h i else z)"
  by (simp add: upto_n_def)

lemma upto_n_0: "upto_n N 0 h z = replicate N z"
  by (simp add: upto_n_def map_replicate_const)

lemma init_filled: "init_arrays = filled sy totarea 0"
  by (simp add: init_arrays_def filled_def upto_n_0 nmonth_def nyears_def numeral_2_eq_2)

lemma length_tables [simp]: "length days = 12" "length daye = 12" "length date_mint = 12"
  by (simp_all add: days_def daye_def date_mint_def cumsum_def dayim_def)

lemma Edata_row:
  "0 \<le> k \<Longrightarrow> k < 3000 \<Longrightarrow> getitem Edata k = Inr [fmul (float_lit 1) E]"
  by (simp add: getitem_ok Edata_def)

lemma month_of_range: "1 \<le> month_of n" "month_of n \<le> 12"
  by (simp_all add: month_of_def) 

lemma index_of: "(year_of n - 1) * 12 + month_of n - 1 = int n"
  by (simp add: year_of_def month_of_def)

lemma year_of_range: "n < 3000 \<Longrightarrow> 1 \<le> year_of n \<and> year_of n \<le> 250"
proof -
  assume "n < 3000"
  then have "int n div 12 \<le> 2999 div 12"
    by (intro zdiv_mono1) simp_all
  moreover have "0 \<le> int n div 12" by simp
  ultimately show ?thesis by (simp add: year_of_def)
qed

lemma setitem2_row0:
  "0 \<le> c \<Longrightarrow> c < int (length r0) \<Longrightarrow> setitem2 [r0, r1] 0 c v = Inr [r0[nat c := v], r1]"
  by (simp add: setitem2_def getitem_ok setitem_ok)

lemma setitem2_row1:
  "0 \<le> c \<Longrightarrow> c < int (length r1) \<Longrightarrow> setitem2 [r0, r1] 1 c v = Inr [r0, r1[nat c := v]]"
  by (simp add: setitem2_def getitem_ok setitem_ok)

lemma getitem2_row0:
  "0 \<le> c \<Longrightarrow> c < int (length r0) \<Longrightarrow> getitem2 [r0, r1] 0 c = Inr (r0 ! nat c)"
  by (simp add: getitem2_def getitem_ok)

lemma getitem2_row1:
  "0 \<le> c \<Longrightarrow> c < int (length r1) \<Longrightarrow> getitem2 [r0, r1] 1 c = Inr (r1 ! nat c)"
  by (simp add: getitem2_def getitem_ok)

lemma column_two:
  "0 \<le> c \<Longrightarrow> c < int (length r0) \<Longrightarrow> c < int (length r1) \<Longrightarrow>
   column [r0, r1] c = Inr [r0 ! nat c, r1 ! nat c]"
  by (simp add: getitem_ok)

lemma broadcast_one: "broadcast [v] = Inr (full v)"
  by (simp add: broadcast_def)

lemma body_eq:
  assumes tb: "time_bnds s = [r0, r1]" "length r0 = 3000" "length r1 = 3000"
    and len: "length (time s) = 3000" "length (date s) = 3000" "length (co2flx s) = 3000"
    and im: "1 \<le> im" "im \<le> 12"
    and idx: "(iy - 1) * 12 + im - 1 = int n" "n < 3000"
    and k: "sy \<le> iy \<and> iy < sy + 250 \<Longrightarrow>
            0 \<le> int n - (sy - 1) * 12 \<and> int n - (sy - 1) * 12 < 3000"
  shows "body sy totarea iy im s =
         Inr (s\<lparr> time_bnds := [r0[n := tb0_at iy im], r1[n := tb1_at iy im]],
                 time := (time s)[n := time_at iy im],
                 date := (date s)[n := date_at iy im],
                 co2flx := (co2flx s)[n := flux_at sy totarea iy im] \<rparr>)"
proof -
  have g: "getitem days (im - 1) = Inr (days ! nat (im - 1))"
    "getitem daye (im - 1) = Inr (daye ! nat (im - 1))"
    "getitem date_mint (im - 1) = Inr (date_mint ! nat (im - 1))"
    using im by (simp_all add: getitem_ok)
  have n: "0 \<le> int n" "int n < int (length r0)" "int n < int (length r1)"
    "int n < int (length (r0[n := x]))"
    "int n < int (length (time s))" "int n < int (length (date s))"
    "int n < int (length (co2flx s))" for x
    using idx tb len by simp_all
  have nn: "n < length r0" "n < length r1" using idx tb by simp_all
  show ?thesis
  proof (cases "sy \<le> iy \<and> iy < sy + 250")
    case True
    have e: "getitem Edata (int n - (sy - 1) * 12) = Inr [fmul (float_lit 1) E]"
      using k[OF True] by (simp add: Edata_row)
    show ?thesis
      unfolding body_def Let_def idx g and_then_simps tb
        tb0_at_def[symmetric] tb1_at_def[symmetric] date_at_def[symmetric]
        if_P[OF True] e
      using n nn
      by (simp add: setitem2_row0 setitem2_row1 getitem2_row0 getitem2_row1
          getitem_ok setitem_ok broadcast_one time_at_def flux_at_def if_P[OF True])
  next
    case False
    show ?thesis
      unfolding body_def Let_def idx g and_then_simps tb
        tb0_at_def[symmetric] tb1_at_def[symmetric] date_at_def[symmetric]
        if_not_P[OF False]
      using n nn
      by (simp add: setitem2_row0 setitem2_row1 getitem_ok
          setitem_ok time_at_def flux_at_def if_not_P[OF False])
  qed
qed

lemma body_filled:
  assumes n: "n < 3000"
  shows "body sy totarea (year_of n) (month_of n) (filled sy totarea n)
         = Inr (filled sy totarea (Suc n))"
proof -
  have k: "0 \<le> int n - (sy - 1) * 12 \<and> int n - (sy - 1) * 12 < 3000"
    if "sy \<le> year_of n \<and> year_of n < sy + 250"
  proof -
    note f = that[THEN conjunct1] that[THEN conjunct2] index_of[of n] month_of_range[of n]
    have "0 \<le> int n - (sy - 1) * 12" using f by (simp add: algebra_simps)
    moreover have "int n - (sy - 1) * 12 < 3000" using f by (simp add: algebra_simps)
    ultimately show ?thesis by simp
  qed
  have "body sy totarea (year_of n) (month_of n) (filled sy totarea n) =
        Inr ((filled sy totarea n)
          \<lparr> time_bnds :=
              [(upto_n 3000 n (\<lambda>i. tb0_at (year_of i) (month_of i)) (Finite 0))
                 [n := tb0_at (year_of n) (month_of n)],
               (upto_n 3000 n (\<lambda>i. tb1_at (year_of i) (month_of i)) (Finite 0))
                 [n := tb1_at (year_of n) (month_of n)]],
             time := (time (filled sy totarea n))[n := time_at (year_of n) (month_of n)],
             date := (date (filled sy totarea n))[n := date_at (year_of n) (month_of n)],
             co2flx := (co2flx (filled sy totarea n))
                 [n := flux_at sy totarea (year_of n) (month_of n)] \<rparr>)"
    by (rule body_eq[OF _ _ _ _ _ _ month_of_range index_of n k])
      (simp_all add: filled_def)
  also have "\<dots> = Inr (filled sy totarea (Suc n))"
    using n by (simp add: filled_def upto_n_step)
  finally show ?thesis .
qed

lemma for_each_upto:
  assumes "\<And>k. k < n \<Longrightarrow> f (a + int k) (g k) = Inr (g (Suc k))"
  shows "for_each [a..a + int n - 1] f (g 0) = Inr (g n)"
  using assms
proof (induction n arbitrary: a g)
  case 0
  then show ?case by simp
next
  case (Suc n)
  have step: "f a (g 0) = Inr (g (Suc 0))"
    using Suc.prems[of 0] by simp
  have rest: "for_each [(a + 1)..(a + 1) + int n - 1] f ((g \<circ> Suc) 0) = Inr ((g \<circ> Suc) n)"
  proof (rule Suc.IH)
    fix k assume "k < n"
    then show "f (a + 1 + int k) ((g \<circ> Suc) k) = Inr ((g \<circ> Suc) (Suc k))"
      using Suc.prems[of "Suc k"] by (simp add: add.commute add.left_commute)
  qed
  have "[a..a + int (Suc n) - 1] = a # [(a + 1)..(a + 1) + int n - 1]"
    by (simp add: upto_rec1)
  then show ?case using step rest by simp
qed

lemma year_month_of:
  "k < 12 \<Longrightarrow> year_of (12 * j + k) = 1 + int j \<and> month_of (12 * j + k) = 1 + int k"
  by (simp add: year_of_def month_of_def)

lemma inner_loop:
  assumes "j < 250"
  shows "for_each [1..12] (body sy totarea (1 + int j)) (filled sy totarea (12 * j))
         = Inr (filled sy totarea (12 * Suc j))"
proof -
  have "for_each [1..1 + int 12 - 1] (body sy totarea (1 + int j))
          (filled sy totarea (12 * j + 0)) = Inr (filled sy totarea (12 * j + 12))"
  proof (rule for_each_upto)
    fix k :: nat assume k: "k < 12"
    with assms have "12 * j + k < 3000" by simp
    from body_filled[OF this] year_month_of[OF k, of j]
    show "body sy totarea (1 + int j) (1 + int k) (filled sy totarea (12 * j + k))
          = Inr (filled sy totarea (12 * j + Suc k))" by simp
  qed
  then show ?thesis by (simp add: add.commute)
qed

lemma fill_arrays_filled: "fill_arrays sy totarea = Inr (filled sy totarea 3000)"
proof -
  have "for_each [1..1 + int 250 - 1] (\<lambda>iy. for_each [1..12] (body sy totarea iy))
          (filled sy totarea (12 * 0)) = Inr (filled sy totarea (12 * 250))"
    by (rule for_each_upto) (rule inner_loop)
  then show ?thesis
    by (simp add: fill_arrays_def nyears_def init_filled[of sy totarea])
qed

section \<open>Reading the arrays after the loop\<close>

lemma idx_decode:
  assumes "1 \<le> iy" "iy \<le> 250" "1 \<le> im" "im \<le> 12"
  shows "nat ((iy - 1) * 12 + im - 1) < 3000"
    and "year_of (nat ((iy - 1) * 12 + im - 1)) = iy"
    and "month_of (nat ((iy - 1) * 12 + im - 1)) = im"
proof -
  have nn: "0 \<le> (iy - 1) * 12 + im - 1" using assms by simp
  have e: "(iy - 1) * 12 + im - 1 = (im - 1) + (iy - 1) * 12" by simp
  have m: "0 \<le> im - 1" "im - 1 < 12" using assms by simp_all
  show "nat ((iy - 1) * 12 + im - 1) < 3000" using assms by simp
  have "((im - 1) + (iy - 1) * 12) div 12 = iy - 1"
    using m by (simp only: div_mult_self1 div_pos_pos_trivial)
  then show "year_of (nat ((iy - 1) * 12 + im - 1)) = iy"
    unfolding year_of_def int_nat_eq e using nn e by simp
  have "((im - 1) + (iy - 1) * 12) mod 12 = im - 1"
    using m by (simp only: mod_mult_self1 mod_pos_pos_trivial)
  then show "month_of (nat ((iy - 1) * 12 + im - 1)) = im"
    unfolding month_of_def int_nat_eq e using nn e by simp
qed

lemma filled_nth:
  assumes "n < 3000"
  shows "time_bnds (filled sy a 3000) ! 0 ! n = tb0_at (year_of n) (month_of n)"
    and "time_bnds (filled sy a 3000) ! 1 ! n = tb1_at (year_of n) (month_of n)"
    and "time (filled sy a 3000) ! n = time_at (year_of n) (month_of n)"
    and "date (filled sy a 3000) ! n = date_at (year_of n) (month_of n)"
    and "co2flx (filled sy a 3000) ! n = flux_at sy a (year_of n) (month_of n)"
  using assms by (simp_all add: filled_def upto_n_nth)

lemma month_cases:
  "1 \<le> im \<Longrightarrow> im \<le> 12 \<Longrightarrow> im \<in> {1, 2, 3, 4, 5, 6, 7, 8, 9, 10, 11, 12 :: int}"
  by (simp only: insert_iff empty_iff) arith

lemma date_mint_range:
  assumes "1 \<le> im" "im \<le> 12"
  shows "116 \<le> date_mint ! nat (im - 1) \<and> date_mint ! nat (im - 1) \<le> 1216"
  using month_cases[OF assms] by (auto simp: date_mint_def)



lemma sint_date_at:
  assumes "1 \<le> iy" "iy \<le> 250" "1 \<le> im" "im \<le> 12"
  shows "sint (date_at iy im) = (1850 + (iy - 1)) * 10000 + date_mint ! nat (im - 1)"
proof -
  let ?v = "(1850 + (iy - 1)) * 10000 + date_mint ! nat (im - 1)"
  have "- (2 ^ 31) \<le> ?v" "?v < 2 ^ 31"
    using assms date_mint_range[OF assms(3,4)] by simp_all
  then have "signed_take_bit 31 ?v = ?v"
    by (rule signed_take_bit_int_eq_self)
  then show ?thesis
    unfolding date_at_def sint_sbintrunc' by simp
qed

lemma full_nth:
  "lat < 96 \<Longrightarrow> lon < 144 \<Longrightarrow> full v ! lat ! lon = v"
  by (simp add: full_def nlat_def nlon_def)

lemma float_lit_0: "float_lit 0 = Finite 0"
  by (simp add: float_lit_def round64_def rnd_rat_def max_finite_def)

lemma flux_at_uniform: "\<exists>v. flux_at sy a iy im = full v"
  unfolding flux_at_def by auto

section \<open>The packed date code\<close>

text \<open>
  Claim C4. For every year \<open>iy\<close> in \<open>[1, 250]\<close> and month \<open>im\<close> in \<open>[1, 12]\<close>, the date code
  stored at the index \<open>(iy - 1) * 12 + im - 1\<close> is \<open>(1850 + iy - 1) * 10000 + date_mint[im - 1]\<close>:
  read as a signed 32-bit integer it has not wrapped, its part above the last four digits
  is the year, which runs from 1850 to 2099, and its last four digits are the fixed
  mid-month code of the month. The loop ends without an exception.
\<close>

theorem date_code_packed:
  assumes "1 \<le> iy" "iy \<le> 250" "1 \<le> im" "im \<le> 12"
  shows "\<exists>s. fill_arrays start_year totarea = Inr s \<and>
           sint (date s ! nat ((iy - 1) * 12 + im - 1))
             = (1850 + iy - 1) * 10000 + date_mint ! nat (im - 1) \<and>
           sint (date s ! nat ((iy - 1) * 12 + im - 1)) div 10000 = 1850 + iy - 1 \<and>
           sint (date s ! nat ((iy - 1) * 12 + im - 1)) mod 10000 = date_mint ! nat (im - 1) \<and>
           1850 \<le> 1850 + iy - 1 \<and> 1850 + iy - 1 \<le> 2099"
proof -
  let ?n = "nat ((iy - 1) * 12 + im - 1)"
  let ?s = "filled start_year totarea 3000"
  have d: "date ?s ! ?n = date_at iy im"
    using filled_nth(4)[OF idx_decode(1)[OF assms]] idx_decode(2,3)[OF assms] by simp
  have v: "sint (date ?s ! ?n) = (1850 + iy - 1) * 10000 + date_mint ! nat (im - 1)"
    using sint_date_at[OF assms] d by (simp add: add_diff_eq)
  have r: "0 \<le> date_mint ! nat (im - 1)" "date_mint ! nat (im - 1) < 10000"
    using date_mint_range[OF assms(3,4)] by simp_all
  have dv: "(date_mint ! nat (im - 1) + (1850 + iy - 1) * 10000) div 10000 = 1850 + iy - 1"
    using r by (simp only: div_mult_self1 div_pos_pos_trivial)
  have md: "(date_mint ! nat (im - 1) + (1850 + iy - 1) * 10000) mod 10000
            = date_mint ! nat (im - 1)"
    using r by (simp only: mod_mult_self1 mod_pos_pos_trivial)
  show ?thesis
    using fill_arrays_filled[of start_year totarea] v dv md assms
    by (simp add: add.commute)
qed

theorem date_code_packed_witness:
  "\<exists>s. fill_arrays start_year (Finite 1) = Inr s \<and>
       sint (date s ! 13) = 18510215 \<and>
       sint (date s ! 13) div 10000 = 1851 \<and>
       sint (date s ! 13) mod 10000 = 215"
  using date_code_packed[of 2 2 "Finite 1"] by (simp add: date_mint_def)

section \<open>The flux field is uniform, and zero outside the years of emission\<close>

text \<open>
  Claim C2. Whatever the start year and the total area, the loop ends without an
  exception; at every time step below 3000 all latitude and longitude entries of the flux
  field are equal; and at the time steps of a year outside \<open>[start_year, start_year + 250)\<close>
  every entry is zero. With the start year 1 of the script every year of the loop lies in
  that range.
\<close>

theorem flux_uniform_zero_outside:
  "\<exists>s. fill_arrays sy totarea = Inr s \<and>
     (\<forall>idx lat lon lat' lon'. idx < 3000 \<and> lat < 96 \<and> lon < 144 \<and> lat' < 96 \<and> lon' < 144 \<longrightarrow>
        co2flx s ! idx ! lat ! lon = co2flx s ! idx ! lat' ! lon') \<and>
     (\<forall>iy im lat lon. 1 \<le> iy \<and> iy \<le> 250 \<and> 1 \<le> im \<and> im \<le> 12 \<and> lat < 96 \<and> lon < 144 \<and>
        \<not> (sy \<le> iy \<and> iy < sy + 250) \<longrightarrow>
        co2flx s ! nat ((iy - 1) * 12 + im - 1) ! lat ! lon = Finite 0)"
proof -
  let ?s = "filled sy totarea 3000"
  have u: "co2flx ?s ! idx ! lat ! lon = co2flx ?s ! idx ! lat' ! lon'"
    if b: "idx < 3000" "lat < 96" "lon < 144" "lat' < 96" "lon' < 144"
    for idx lat lon lat' lon'
  proof -
    have "\<exists>v. co2flx ?s ! idx = full v"
      unfolding filled_nth(5)[OF b(1)] by (rule flux_at_uniform)
    then show ?thesis using b by (auto simp: full_nth)
  qed
  have z: "co2flx ?s ! nat ((iy - 1) * 12 + im - 1) ! lat ! lon = Finite 0"
    if "1 \<le> iy" "iy \<le> 250" "1 \<le> im" "im \<le> 12" "lat < 96" "lon < 144"
      "\<not> (sy \<le> iy \<and> iy < sy + 250)"
    for iy im lat lon
  proof -
    have "co2flx ?s ! nat ((iy - 1) * 12 + im - 1) = flux_at sy totarea iy im"
      using filled_nth(5)[OF idx_decode(1)[OF that(1-4)]] idx_decode(2,3)[OF that(1-4)]
      by simp
    also have "\<dots> = full (Finite 0)"
      using that(7) by (simp only: flux_at_def if_not_P float_lit_0 if_False)
    finally show ?thesis using that by (simp add: full_nth)
  qed
  show ?thesis
    using fill_arrays_filled[of sy totarea] u z by blast
qed

theorem flux_uniform_zero_outside_witness:
  "\<exists>s. fill_arrays 2 (Finite 1) = Inr s \<and>
       co2flx s ! 14 ! 3 ! 5 = co2flx s ! 14 ! 95 ! 143 \<and>
       co2flx s ! 11 ! 3 ! 5 = Finite 0"
proof -
  obtain s where s: "fill_arrays 2 (Finite 1) = Inr s"
    and u: "\<forall>idx lat lon lat' lon'. idx < 3000 \<and> lat < 96 \<and> lon < 144 \<and> lat' < 96 \<and> lon' < 144 \<longrightarrow>
        co2flx s ! idx ! lat ! lon = co2flx s ! idx ! lat' ! lon'"
    and z: "\<forall>iy im lat lon. 1 \<le> iy \<and> iy \<le> 250 \<and> 1 \<le> im \<and> im \<le> 12 \<and> lat < 96 \<and> lon < 144 \<and>
        \<not> (2 \<le> iy \<and> iy < 2 + 250) \<longrightarrow>
        co2flx s ! nat ((iy - 1) * 12 + im - 1) ! lat ! lon = Finite 0"
    using flux_uniform_zero_outside[of 2 "Finite 1"] by blast
  have "co2flx s ! 14 ! 3 ! 5 = co2flx s ! 14 ! 95 ! 143"
    using u by simp
  moreover have "co2flx s ! nat ((1 - 1) * 12 + 12 - 1) ! 3 ! 5 = Finite 0"
    using z[rule_format, of 1 12 3 5] by simp
  ultimately show ?thesis using s by simp
qed


section \<open>Rounding is exact on the calendar values\<close>

text \<open>
  An integer below \<open>2\<^sup>5\<^sup>3\<close> in absolute value, and half of one, are binary64 numbers, so the
  conversions, sums, differences and halvings of the day counts are computed without any
  rounding error.
\<close>

lemma expo_bounds:
  assumes "0 < q"
  shows "2 powi (expo q) \<le> q" and "q < 2 powi (expo q + 1)"
proof -
  obtain a b where ab: "quotient_of q = (a, b)" by (cases "quotient_of q")
  then have b: "0 < b" and q: "q = of_int a / of_int b"
    using quotient_of_denom_pos quotient_of_div by blast+
  from assms q b have a: "0 < a"
    by (simp add: zero_less_divide_iff)
  define k where "k = bitlen a - bitlen b"
  have la: "bitlen a \<ge> 1" and lb: "bitlen b \<ge> 1"
    using a b by (auto simp: bitlen_alt_def)
  have bl: "(2::rat) powi (bitlen c - 1) \<le> of_int c \<and> of_int c < (2::rat) powi (bitlen c)"
    if c: "0 < c" for c
  proof -
    have l: "bitlen c \<ge> 1" using c by (auto simp: bitlen_alt_def)
    have "(2::int) ^ nat (bitlen c - 1) \<le> c" "c < (2::int) ^ nat (bitlen c)"
      using bitlen_bounds[OF c] by simp_all
    then have "(of_int ((2::int) ^ nat (bitlen c - 1)) :: rat) \<le> of_int c"
      "(of_int c :: rat) < of_int ((2::int) ^ nat (bitlen c))"
      by (simp_all only: of_int_le_iff of_int_less_iff)
    then show ?thesis using l by (simp add: power_int_def)
  qed
  note a1 = bl[OF a, THEN conjunct1] and a2 = bl[OF a, THEN conjunct2]
    and b1 = bl[OF b, THEN conjunct1] and b2 = bl[OF b, THEN conjunct2]
  have e: "expo q = (if 2 powi k \<le> q then k else k - 1)"
    by (simp add: expo_def ab k_def Let_def)
  have bp: "(0::rat) < of_int b" using b by simp
  have up: "q < (2::rat) powi (k + 1)"
  proof -
    have "q * of_int b = of_int a" using q bp by simp
    also have "\<dots> < 2 powi (bitlen a)" by (rule a2)
    also have "\<dots> = 2 powi (k + 1) * 2 powi (bitlen b - 1)"
      by (simp add: k_def power_int_add[symmetric])
    also have "\<dots> \<le> 2 powi (k + 1) * of_int b"
      using b1 by (simp add: mult_left_mono)
    finally show ?thesis using bp by simp
  qed
  have lo: "(2::rat) powi (k - 1) \<le> q"
  proof -
    have "(2::rat) powi (k - 1) * of_int b \<le> 2 powi (k - 1) * 2 powi (bitlen b)"
      using b2 by (simp add: mult_left_mono)
    also have "\<dots> = 2 powi (bitlen a - 1)"
      by (simp add: k_def power_int_add[symmetric])
    also have "\<dots> \<le> of_int a" by (rule a1)
    also have "\<dots> = q * of_int b" using q bp by simp
    finally show ?thesis using bp by simp
  qed
  show "2 powi (expo q) \<le> q" using e lo by (simp split: if_splits)
  show "q < 2 powi (expo q + 1)" using e up by (auto split: if_splits)
qed

lemma round_even_of_int: "round_even (of_int k) = k"
  by (simp add: round_even_def)

lemma round_even_err: "\<bar>of_int (round_even y) - y\<bar> \<le> 1 / 2"
  unfolding round_even_def Let_def
  by (auto simp: abs_if) linarith+

lemma rnd_rat_dyadic:
  assumes n: "0 < n" "n < 2 ^ 53" and j: "- 1074 \<le> j"
  shows "rnd_rat (of_int n * 2 powi j) = of_int n * 2 powi j"
proof -
  define q where "q = (of_int n :: rat) * 2 powi j"
  have qpos: "0 < q" using n by (simp add: q_def)
  have "(of_int n :: rat) < of_int (2 ^ 53)" using n by (simp only: of_int_less_iff)
  then have "(of_int n :: rat) < 2 powi 53" by simp
  then have "q < 2 powi 53 * 2 powi j" by (simp add: q_def)
  then have qlt: "q < 2 powi (53 + j)" by (simp add: power_int_add)
  have "(2::rat) powi expo q < 2 powi (53 + j)"
    using expo_bounds(1)[OF qpos] qlt by simp
  then have e: "expo q < 53 + j"
    using power_int_increasing[of "53 + j" "expo q" "2::rat"] by (cases "expo q < 53 + j") auto
  define p where "p = max (expo q - 52) (- 1074)"
  have pj: "p \<le> j" using e j by (simp add: p_def)
  have "q / 2 powi p = of_int n * 2 powi (j - p)"
    by (simp add: q_def power_int_diff)
  also have "\<dots> = of_int n * 2 ^ nat (j - p)"
    using pj by (simp add: power_int_def)
  also have "\<dots> = of_int (n * 2 ^ nat (j - p))" by simp
  finally have sc: "q / 2 powi p = of_int (n * 2 ^ nat (j - p))" .
  have "rnd_rat q = of_int (round_even (q / 2 powi p)) * 2 powi p"
    using qpos by (simp add: rnd_rat_def p_def Let_def)
  also have "\<dots> = (q / 2 powi p) * 2 powi p"
    unfolding sc round_even_of_int ..
  also have "\<dots> = q" by simp
  finally show ?thesis by (simp add: q_def)
qed

lemma round64_dyadic:
  assumes n: "0 < n" "n < 2 ^ 53" and j: "- 1074 \<le> j" "j \<le> 0"
  shows "round64 False (of_int n * 2 powi j) = Finite (of_int n * 2 powi j)"
proof -
  define q where "q = (of_int n :: rat) * 2 powi j"
  have qpos: "0 < q" using n by (simp add: q_def)
  have r: "rnd_rat q = q" unfolding q_def by (rule rnd_rat_dyadic[OF n j(1)])
  have "(2::rat) powi j \<le> 2 powi 0" using j by (intro power_int_increasing) simp_all
  then have "q \<le> of_int n" using n by (simp add: q_def mult_left_le)
  also have "\<dots> \<le> of_int (2 ^ 53)" using n by (simp only: of_int_le_iff)
  also have "\<dots> \<le> max_finite" by (simp add: max_finite_def)
  finally have "q \<le> max_finite" .
  then show ?thesis
    using qpos r by (simp add: round64_def q_def[symmetric] Let_def abs_of_pos)
qed

lemma round64_int:
  "0 < n \<Longrightarrow> n < 2 ^ 53 \<Longrightarrow> round64 False (of_int n) = Finite (of_int n)"
  using round64_dyadic[of n 0] by simp

lemma round64_half:
  "0 < n \<Longrightarrow> n < 2 ^ 53 \<Longrightarrow> round64 False (of_int n / 2) = Finite (of_int n / 2)"
  using round64_dyadic[of n "- 1"] by (simp add: power_int_minus field_simps)

lemma float_of_int_exact:
  assumes "0 \<le> n" "n < 2 ^ 53"
  shows "float_of_int n = Finite (of_int n)"
proof (cases "n = 0")
  case True
  then show ?thesis
    by (simp add: float_of_int_def round64_def rnd_rat_def max_finite_def)
next
  case False
  then show ?thesis using assms round64_int[of n] by (simp add: float_of_int_def)
qed

lemma float_lit_int:
  "0 < n \<Longrightarrow> n < 2 ^ 53 \<Longrightarrow> float_lit (of_int n) = Finite (of_int n)"
  using round64_int[of n] by (simp add: float_lit_def)

lemma fadd_int:
  assumes "0 \<le> a" "0 \<le> b" "a + b < 2 ^ 53"
  shows "fadd (Finite (of_int a)) (Finite (of_int b)) = Finite (of_int (a + b))"
proof (cases "a + b = 0")
  case True
  then have "a = 0" "b = 0" using assms by simp_all
  then show ?thesis by (simp add: fadd_def zero_of_def)
next
  case False
  then have p: "0 < a + b" using assms by simp
  have "round64 False (of_int a + of_int b) = Finite (of_int a + of_int b)"
    using round64_int[OF p assms(3)] by simp
  moreover have "(of_int a + of_int b :: rat) \<noteq> 0" "\<not> (of_int a + of_int b :: rat) < 0"
    using p by (simp_all flip: of_int_add)
  ultimately show ?thesis
    by (simp add: fadd_def)
qed

lemma fsub_int:
  assumes "0 \<le> b" "b < a" "a < 2 ^ 53"
  shows "fsub (Finite (of_int a)) (Finite (of_int b)) = Finite (of_int (a - b))"
proof -
  have p: "0 < a - b" "a - b < 2 ^ 53" using assms by simp_all
  have v: "valof (fneg (Finite (of_int b))) = - of_int b"
    and f: "fneg (Finite (of_int b)) \<noteq> NaN" "\<not> is_inf (fneg (Finite (of_int b)))"
    by (simp_all add: fneg_def)
  have "round64 False (of_int a - of_int b) = Finite (of_int a - of_int b)"
    using round64_int[OF p] by simp
  moreover have "(of_int a - of_int b :: rat) \<noteq> 0" "\<not> (of_int a - of_int b :: rat) < 0"
    using p by (simp_all flip: of_int_diff)
  ultimately show ?thesis
    using v f by (simp add: fsub_def fadd_def)
qed

lemma fmul_int:
  assumes "0 < a" "0 < b" "a * b < 2 ^ 53"
  shows "fmul (Finite (of_int a)) (Finite (of_int b)) = Finite (of_int (a * b))"
proof -
  have p: "0 < a * b" using assms by simp
  have "round64 False (of_int a * of_int b) = Finite (of_int a * of_int b)"
    using round64_int[OF p assms(3)] by simp
  then show ?thesis
    using assms by (simp add: fmul_def not_less mult_nonneg_nonneg)
qed

lemma fdiv_two:
  assumes "0 < n" "n < 2 ^ 53"
  shows "fdiv (Finite (of_int n)) (Finite 2) = Finite (of_int n / 2)"
  using round64_half[OF assms] assms by (simp add: fdiv_def)


lemma month_tables:
  assumes "1 \<le> im" "im \<le> 12"
  shows "days ! nat (im - 1) - 1 = sum_list (take (nat (im - 1)) dayim)"
    and "daye ! nat (im - 1) = sum_list (take (nat im) dayim)"
    and "daye ! nat (im - 1) - (days ! nat (im - 1) - 1) = dayim ! nat (im - 1)"
    and "0 \<le> days ! nat (im - 1) - 1"
    and "days ! nat (im - 1) - 1 < daye ! nat (im - 1)"
    and "daye ! nat (im - 1) \<le> 365"
    and "28 \<le> dayim ! nat (im - 1)"
    and "dayim ! nat (im - 1) \<le> 31"
  using month_cases[OF assms]
  by (auto simp: days_def daye_def dayim_def cumsum_def)

lemma tb_values:
  assumes "1 \<le> iy" "iy \<le> 250" "1 \<le> im" "im \<le> 12"
  shows "tb0_at iy im = Finite (of_int (365 * (iy - 1) + (days ! nat (im - 1) - 1)))"
    and "tb1_at iy im = Finite (of_int (365 * (iy - 1) + daye ! nat (im - 1)))"
proof -
  note t = month_tables[OF assms(3,4)]
  have "0 \<le> 365 * (iy - 1) + (days ! nat (im - 1) - 1)"
    "365 * (iy - 1) + (days ! nat (im - 1) - 1) < 2 ^ 53"
    using assms t(4,5,6) by simp_all
  from float_of_int_exact[OF this]
  show "tb0_at iy im = Finite (of_int (365 * (iy - 1) + (days ! nat (im - 1) - 1)))"
    by (simp add: tb0_at_def add_diff_eq)
  have "0 \<le> 365 * (iy - 1) + daye ! nat (im - 1)"
    "365 * (iy - 1) + daye ! nat (im - 1) < 2 ^ 53"
    using assms t(4,5,6) by simp_all
  from float_of_int_exact[OF this]
  show "tb1_at iy im = Finite (of_int (365 * (iy - 1) + daye ! nat (im - 1)))"
    by (simp add: tb1_at_def)
qed

lemma tb_diff:
  assumes "1 \<le> iy" "iy \<le> 250" "1 \<le> im" "im \<le> 12"
  shows "fsub (tb1_at iy im) (tb0_at iy im) = Finite (of_int (dayim ! nat (im - 1)))"
proof -
  note t = month_tables[OF assms(3,4)]
  have "fsub (Finite (of_int (365 * (iy - 1) + daye ! nat (im - 1))))
             (Finite (of_int (365 * (iy - 1) + (days ! nat (im - 1) - 1))))
        = Finite (of_int ((365 * (iy - 1) + daye ! nat (im - 1))
                          - (365 * (iy - 1) + (days ! nat (im - 1) - 1))))"
    using assms t(4,5,6) by (intro fsub_int) simp_all
  then show ?thesis
    unfolding tb_values[OF assms] using t(3) by (simp add: algebra_simps)
qed

lemma time_value:
  assumes "1 \<le> iy" "iy \<le> 250" "1 \<le> im" "im \<le> 12"
  shows "time_at iy im =
         Finite ((of_int (365 * (iy - 1) + (days ! nat (im - 1) - 1))
                  + of_int (365 * (iy - 1) + daye ! nat (im - 1))) / 2)"
proof -
  note t = month_tables[OF assms(3,4)]
  let ?a = "365 * (iy - 1) + (days ! nat (im - 1) - 1)"
  let ?b = "365 * (iy - 1) + daye ! nat (im - 1)"
  have a: "0 \<le> ?a" and b: "0 \<le> ?b" and pos: "0 < ?a + ?b" and lt: "?a + ?b < 2 ^ 53"
    and lta: "0 + ?a < 2 ^ 53"
    using assms t(4,5,6) by simp_all
  have z: "fadd (Finite 0) (Finite (of_int ?a)) = Finite (of_int ?a)"
    using fadd_int[of 0 ?a] a lta by simp
  have "np_sum [tb0_at iy im, tb1_at iy im] = Finite (of_int (?a + ?b))"
    unfolding np_sum_def tb_values[OF assms] foldl.simps z
    by (rule fadd_int[OF a b lt])
  moreover have "float_lit 2 = Finite 2"
    using float_lit_int[of 2] by simp
  ultimately have "time_at iy im = Finite (of_int (?a + ?b) / 2)"
    using fdiv_two[OF pos lt] by (simp add: time_at_def)
  then show ?thesis by (simp only: of_int_add)
qed


section \<open>The time bounds and the midpoint time\<close>

text \<open>
  Claim C3. For every year \<open>iy\<close> in \<open>[1, 250]\<close> and month \<open>im\<close> in \<open>[1, 12]\<close>, at the index
  \<open>(iy - 1) * 12 + im - 1\<close> the lower time bound is \<open>365 * (iy - 1)\<close> plus the days of the
  months before \<open>im\<close>, the upper one is \<open>365 * (iy - 1)\<close> plus the days through month \<open>im\<close>,
  on the 365-day calendar, and their difference, as a number and as the float subtraction
  the script performs, is the number of days of month \<open>im\<close>.
\<close>

theorem time_bounds_calendar:
  assumes "1 \<le> iy" "iy \<le> 250" "1 \<le> im" "im \<le> 12"
  shows "\<exists>s. fill_arrays start_year totarea = Inr s \<and>
           time_bnds s ! 0 ! nat ((iy - 1) * 12 + im - 1)
             = Finite (of_int (365 * (iy - 1) + sum_list (take (nat (im - 1)) dayim))) \<and>
           time_bnds s ! 1 ! nat ((iy - 1) * 12 + im - 1)
             = Finite (of_int (365 * (iy - 1) + sum_list (take (nat im) dayim))) \<and>
           valof (time_bnds s ! 1 ! nat ((iy - 1) * 12 + im - 1))
             - valof (time_bnds s ! 0 ! nat ((iy - 1) * 12 + im - 1))
             = of_int (dayim ! nat (im - 1)) \<and>
           fsub (time_bnds s ! 1 ! nat ((iy - 1) * 12 + im - 1))
                (time_bnds s ! 0 ! nat ((iy - 1) * 12 + im - 1))
             = Finite (of_int (dayim ! nat (im - 1)))"
proof -
  let ?n = "nat ((iy - 1) * 12 + im - 1)"
  let ?s = "filled start_year totarea 3000"
  note d = idx_decode[OF assms]
  note t = month_tables[OF assms(3,4)]
  have b0: "time_bnds ?s ! 0 ! ?n = tb0_at iy im" and b1: "time_bnds ?s ! 1 ! ?n = tb1_at iy im"
    using filled_nth(1,2)[OF d(1)] d(2,3) by simp_all
  have v0: "tb0_at iy im = Finite (of_int (365 * (iy - 1) + sum_list (take (nat (im - 1)) dayim)))"
    and v1: "tb1_at iy im = Finite (of_int (365 * (iy - 1) + sum_list (take (nat im) dayim)))"
    using tb_values[OF assms] t(1,2) by simp_all
  have df: "valof (tb1_at iy im) - valof (tb0_at iy im) = of_int (dayim ! nat (im - 1))"
    unfolding tb_values[OF assms] valof.simps of_int_diff[symmetric] using t(3)
    by (simp only: add_diff_cancel_left)
  show ?thesis
    using fill_arrays_filled[of start_year totarea] b0 b1 v0 v1 df tb_diff[OF assms]
    by simp
qed

theorem time_bounds_calendar_witness:
  "\<exists>s. fill_arrays start_year (Finite 1) = Inr s \<and>
       time_bnds s ! 0 ! 14 = Finite 424 \<and>
       time_bnds s ! 1 ! 14 = Finite 455 \<and>
       valof (time_bnds s ! 1 ! 14) - valof (time_bnds s ! 0 ! 14) = 31 \<and>
       fsub (time_bnds s ! 1 ! 14) (time_bnds s ! 0 ! 14) = Finite 31"
  using time_bounds_calendar[of 2 3 "Finite 1"] by (simp add: dayim_def)

lemma first_before_last: "first_day n < last_day n"
  using month_tables(5)[OF month_of_range, of n] by (simp add: first_day_def last_day_def)

lemma first_day_nonneg: "0 \<le> first_day n"
  using month_tables(4)[OF month_of_range, of n] by (simp add: first_day_def year_of_def)

lemma tables_next:
  "k < 11 \<Longrightarrow> daye ! k = days ! Suc k - 1"
  "daye ! 11 = 365" "days ! 0 = 1"
proof -
  show "daye ! 11 = 365" "days ! 0 = 1"
    by (simp_all add: days_def daye_def dayim_def cumsum_def)
  assume "k < 11"
  then have "k \<in> {0, 1, 2, 3, 4, 5, 6, 7, 8, 9, 10}"
    by (simp only: insert_iff empty_iff) arith
  then show "daye ! k = days ! Suc k - 1"
    by (auto simp: days_def daye_def dayim_def cumsum_def)
qed

lemma last_is_next_first: "last_day n = first_day (Suc n)"
proof -
  define j where "j = n div 12"
  define k where "k = n mod 12"
  have n: "n = 12 * j + k" and k: "k < 12" by (simp_all add: j_def k_def)
  have ym: "year_of n = 1 + int j" "month_of n = 1 + int k"
    using year_month_of[OF k, of j] n by simp_all
  show ?thesis
  proof (cases "k < 11")
    case True
    then have "Suc k < 12" by simp
    from year_month_of[OF this, of j]
    have "year_of (Suc n) = 1 + int j" "month_of (Suc n) = 1 + int (Suc k)"
      using n by simp_all
    moreover have "nat (1 + int k) = Suc k" by simp
    ultimately show ?thesis
      using ym tables_next(1)[OF True] by (simp add: first_day_def last_day_def)
  next
    case False
    then have k11: "k = 11" using k by simp
    have "Suc n = 12 * Suc j + 0" using n k11 by simp
    then have "year_of (Suc n) = 1 + int (Suc j)" "month_of (Suc n) = 1 + int 0"
      using year_month_of[of 0 "Suc j"] by simp_all
    then show ?thesis
      using ym k11 tables_next(2,3) by (simp add: first_day_def last_day_def)
  qed
qed

lemma mid_day_mono: "i < j \<Longrightarrow> mid_day i < mid_day j"
proof (rule lift_Suc_mono_less)
  fix n
  have "first_day n < first_day (Suc n)" "last_day n < last_day (Suc n)"
    using first_before_last[of n] first_before_last[of "Suc n"] last_is_next_first[of n]
    by simp_all
  then have "(of_int (first_day n) :: rat) < of_int (first_day (Suc n))"
    "(of_int (last_day n) :: rat) < of_int (last_day (Suc n))"
    by (simp_all only: of_int_less_iff)
  then show "mid_day n < mid_day (Suc n)"
    by (simp add: mid_day_def)
qed

lemma filled_days:
  assumes "n < 3000"
  shows "time_bnds (filled sy a 3000) ! 0 ! n = Finite (of_int (first_day n))"
    and "time_bnds (filled sy a 3000) ! 1 ! n = Finite (of_int (last_day n))"
    and "time (filled sy a 3000) ! n = Finite (mid_day n)"
proof -
  have r: "1 \<le> year_of n" "year_of n \<le> 250" "1 \<le> month_of n" "month_of n \<le> 12"
    using year_of_range[OF assms] month_of_range[of n] by simp_all
  show "time_bnds (filled sy a 3000) ! 0 ! n = Finite (of_int (first_day n))"
    "time_bnds (filled sy a 3000) ! 1 ! n = Finite (of_int (last_day n))"
    "time (filled sy a 3000) ! n = Finite (mid_day n)"
    unfolding filled_nth(1,2,3)[OF assms] tb_values[OF r] time_value[OF r]
      first_day_def last_day_def mid_day_def
    by (rule refl)+
qed

text \<open>
  Claim C8. The monthly time bounds partition the 250 years without a gap: at every index
  below 3000 the lower bound is less than the upper one, the upper bound at an index below
  2999 is the lower bound at the next index, the first bound is 0 and the last is
  \<open>365 * 250\<close>; and the midpoint times are strictly increasing.
\<close>

theorem time_bounds_partition:
  "\<exists>s. fill_arrays start_year totarea = Inr s \<and>
     (\<forall>idx. idx < 3000 \<longrightarrow> fless (time_bnds s ! 0 ! idx) (time_bnds s ! 1 ! idx)) \<and>
     (\<forall>idx. idx < 2999 \<longrightarrow> time_bnds s ! 1 ! idx = time_bnds s ! 0 ! (idx + 1)) \<and>
     (\<forall>i j. i < j \<and> j < 3000 \<longrightarrow> fless (time s ! i) (time s ! j)) \<and>
     time_bnds s ! 0 ! 0 = Finite 0 \<and> time_bnds s ! 1 ! 2999 = Finite (365 * 250)"
proof -
  let ?s = "filled start_year totarea 3000"
  have a: "fless (time_bnds ?s ! 0 ! idx) (time_bnds ?s ! 1 ! idx)" if "idx < 3000" for idx
    unfolding filled_days[OF that] using first_before_last[of idx] by (simp add: fless_def)
  have b: "time_bnds ?s ! 1 ! idx = time_bnds ?s ! 0 ! (idx + 1)" if "idx < 2999" for idx
  proof -
    have "idx < 3000" "idx + 1 < 3000" using that by simp_all
    then show ?thesis
      using filled_days(1,2) last_is_next_first[of idx] by simp
  qed
  have c: "fless (time ?s ! i) (time ?s ! j)" if "i < j" "j < 3000" for i j
  proof -
    have "i < 3000" using that by simp
    then show ?thesis
      using filled_days(3) that mid_day_mono[of i j] by (simp add: fless_def)
  qed
  have y0: "year_of 0 = 1" "month_of 0 = 1" "year_of 2999 = 250" "month_of 2999 = 12"
    by (simp_all add: year_of_def month_of_def)
  have d: "first_day 0 = 0" "last_day 2999 = 365 * 250"
    unfolding first_day_def last_day_def y0
    by (simp_all add: days_def daye_def dayim_def cumsum_def)
  have e: "time_bnds ?s ! 0 ! 0 = Finite 0" "time_bnds ?s ! 1 ! 2999 = Finite (365 * 250)"
    using filled_days(1)[of 0] filled_days(2)[of 2999] d by simp_all
  show ?thesis
    using fill_arrays_filled[of start_year totarea] a b c e by blast
qed

theorem time_bounds_partition_witness:
  "\<exists>s. fill_arrays start_year (Finite 1) = Inr s \<and>
     fless (time_bnds s ! 0 ! 40) (time_bnds s ! 1 ! 40) \<and>
     time_bnds s ! 1 ! 40 = time_bnds s ! 0 ! 41 \<and>
     fless (time s ! 40) (time s ! 2999)"
proof -
  obtain s where s: "fill_arrays start_year (Finite 1) = Inr s"
    and a: "\<forall>idx. idx < 3000 \<longrightarrow> fless (time_bnds s ! 0 ! idx) (time_bnds s ! 1 ! idx)"
    and b: "\<forall>idx. idx < 2999 \<longrightarrow> time_bnds s ! 1 ! idx = time_bnds s ! 0 ! (idx + 1)"
    and c: "\<forall>i j. i < j \<and> j < 3000 \<longrightarrow> fless (time s ! i) (time s ! j)"
    using time_bounds_partition[of "Finite 1"] by blast
  have "fless (time_bnds s ! 0 ! 40) (time_bnds s ! 1 ! 40)" using a by simp
  moreover have "time_bnds s ! 1 ! 40 = time_bnds s ! 0 ! 41" using b[rule_format, of 40] by simp
  moreover have "fless (time s ! 40) (time s ! 2999)" using c by simp
  ultimately show ?thesis using s by simp
qed


lemma calendar_days:
  "first_day n = 365 * int (n div 12) + sum_list (take (n mod 12) dayim)"
  "last_day n = 365 * int (n div 12) + sum_list (take (Suc (n mod 12)) dayim)"
proof -
  note t = month_tables(1,2)[OF month_of_range, of n]
  have m: "nat (month_of n - 1) = n mod 12" "nat (month_of n) = Suc (n mod 12)"
    by (simp_all add: month_of_def nat_mod_distrib nat_add_distrib)
  have y: "year_of n - 1 = int (n div 12)"
    by (simp add: year_of_def zdiv_int)
  show "first_day n = 365 * int (n div 12) + sum_list (take (n mod 12) dayim)"
    unfolding first_day_def y using t(1) m(1) by simp
  show "last_day n = 365 * int (n div 12) + sum_list (take (Suc (n mod 12)) dayim)"
    unfolding last_day_def y using t(2) m by simp
qed

text \<open>
  Claim C6. At every index below 3000, whatever the start year and the total area, the
  two time bounds are the day counts \<open>365 * (idx div 12)\<close> plus the days of the months before,
  and through, the month \<open>idx mod 12\<close> of the fixed 365-day calendar, and the midpoint time
  is exactly half their sum: the float sum and the division by \<open>2.0\<close> that compute it round
  nothing away.
\<close>

theorem time_is_midpoint:
  assumes "idx < 3000"
  shows "\<exists>s. fill_arrays sy totarea = Inr s \<and>
           time_bnds s ! 0 ! idx
             = Finite (of_int (365 * int (idx div 12) + sum_list (take (idx mod 12) dayim))) \<and>
           time_bnds s ! 1 ! idx
             = Finite (of_int (365 * int (idx div 12) + sum_list (take (Suc (idx mod 12)) dayim))) \<and>
           time s ! idx
             = Finite ((of_int (365 * int (idx div 12) + sum_list (take (idx mod 12) dayim))
                        + of_int (365 * int (idx div 12)
                                  + sum_list (take (Suc (idx mod 12)) dayim))) / 2) \<and>
           time s ! idx
             = fdiv (np_sum [time_bnds s ! 0 ! idx, time_bnds s ! 1 ! idx]) (float_lit 2) \<and>
           valof (time s ! idx)
             = (valof (time_bnds s ! 0 ! idx) + valof (time_bnds s ! 1 ! idx)) / 2"
proof -
  let ?s = "filled sy totarea 3000"
  note d = filled_days[OF assms, of sy totarea]
  have t: "time ?s ! idx = fdiv (np_sum [time_bnds ?s ! 0 ! idx, time_bnds ?s ! 1 ! idx])
                               (float_lit 2)"
    unfolding filled_nth(1,2,3)[OF assms] time_at_def ..
  have v: "valof (time ?s ! idx)
           = (valof (time_bnds ?s ! 0 ! idx) + valof (time_bnds ?s ! 1 ! idx)) / 2"
    unfolding d by (simp add: mid_day_def)
  show ?thesis
    using fill_arrays_filled[of sy totarea] d[unfolded mid_day_def calendar_days] t v
    by simp
qed

theorem time_is_midpoint_witness:
  "\<exists>s. fill_arrays start_year (Finite 1) = Inr s \<and>
       time_bnds s ! 0 ! 14 = Finite 424 \<and> time_bnds s ! 1 ! 14 = Finite 455 \<and>
       time s ! 14 = Finite (879 / 2) \<and>
       time s ! 14 = fdiv (np_sum [time_bnds s ! 0 ! 14, time_bnds s ! 1 ! 14]) (float_lit 2) \<and>
       valof (time s ! 14) = (valof (time_bnds s ! 0 ! 14) + valof (time_bnds s ! 1 ! 14)) / 2"
  using time_is_midpoint[of 14 start_year "Finite 1"] by (simp add: dayim_def)

section \<open>The constants of the script\<close>

text \<open>
  A rounding is settled by a certificate: when the exact result \<open>q\<close>, scaled by \<open>2\<^sup>k\<close>, lies
  at or above \<open>2\<^sup>5\<^sup>2\<close> and less than one half away from the integer \<open>m\<close> below \<open>2\<^sup>5\<^sup>3\<close>, the
  rounded result is \<open>m / 2\<^sup>k\<close>.
\<close>

lemma round_even_near:
  assumes "\<bar>y - of_int m\<bar> < 1 / 2"
  shows "round_even y = m"
proof (cases "of_int m \<le> y")
  case True
  then have "\<lfloor>y\<rfloor> = m" using assms by (intro floor_unique) (simp_all add: abs_if)
  then show ?thesis using assms True by (simp add: round_even_def Let_def abs_if)
next
  case False
  then have f: "\<lfloor>y\<rfloor> = m - 1" using assms
    by (intro floor_unique) (simp_all add: abs_if split: if_splits)
  have "1 / 2 < y - of_int (m - 1)" using assms False by (simp add: abs_if split: if_splits)
  then show ?thesis unfolding round_even_def Let_def f by simp
qed

lemma expo_unique:
  assumes "2 powi e \<le> q" "q < 2 powi (e + 1)"
  shows "expo q = e"
proof -
  have qpos: "0 < q" using assms(1) by (rule less_le_trans[rotated]) simp
  note b = expo_bounds[OF qpos]
  have "\<not> expo q < e"
  proof
    assume "expo q < e"
    then have "(2::rat) powi (expo q + 1) \<le> 2 powi e"
      by (intro power_int_increasing) simp_all
    then show False using b(2) assms(1) by simp
  qed
  moreover have "\<not> e < expo q"
  proof
    assume "e < expo q"
    then have "(2::rat) powi (e + 1) \<le> 2 powi expo q"
      by (intro power_int_increasing) simp_all
    then show False using b(1) assms(2) by simp
  qed
  ultimately show ?thesis by simp
qed

lemma round64_cert:
  assumes m: "2 ^ 52 \<le> m" "m < 2 ^ 53" and k: "k \<le> 1074"
    and lo: "2 ^ 52 \<le> q * 2 ^ k" and near: "\<bar>q * 2 ^ k - of_int m\<bar> < 1 / 2"
  shows "round64 False q = Finite (of_int m / 2 ^ k)"
proof -
  define p where "p = - int k"
  have pk: "(2::rat) powi p = 1 / 2 ^ k" by (simp add: p_def power_int_minus field_simps)
  have sc: "q / 2 powi p = q * 2 ^ k" by (simp add: pk)
  have "(of_int m :: rat) < of_int (2 ^ 53)" using m by (simp only: of_int_less_iff)
  then have mlt: "(of_int m :: rat) < 2 ^ 53" by simp
  have "(of_int (2 ^ 52) :: rat) \<le> of_int m" using m by (simp only: of_int_le_iff)
  then have mge: "(2 ^ 52 :: rat) \<le> of_int m" by simp
  have up: "q * 2 ^ k < 2 ^ 53"
  proof -
    have "of_int m \<le> (2 ^ 53 :: rat) - 1"
    proof -
      have "m \<le> 2 ^ 53 - 1" using m by simp
      then have "(of_int m :: rat) \<le> of_int (2 ^ 53 - 1)" by (simp only: of_int_le_iff)
      then show ?thesis by simp
    qed
    then show ?thesis using near by (simp add: abs_if split: if_splits)
  qed
  have qpos: "0 < q"
  proof -
    have "(0::rat) < 2 ^ 52" by simp
    then have "0 < q * 2 ^ k" using lo by (rule less_le_trans)
    then show ?thesis by (simp add: zero_less_mult_iff)
  qed
  have e1: "2 powi (52 + p) \<le> q"
  proof -
    have "(2::rat) powi (52 + p) = 2 ^ 52 / 2 ^ k" by (simp add: power_int_add pk)
    also have "\<dots> \<le> q" using lo by (simp only: pos_divide_le_eq zero_less_power zero_less_numeral)
    finally show ?thesis .
  qed
  have e2: "q < 2 powi (52 + p + 1)"
  proof -
    have "q < 2 ^ 53 / 2 ^ k" using up by (simp only: pos_less_divide_eq zero_less_power zero_less_numeral)
    also have "\<dots> = (2::rat) powi (52 + p + 1)" by (simp add: power_int_add pk)
    finally show ?thesis .
  qed
  have ex: "expo q = 52 + p" by (rule expo_unique[OF e1 e2])
  have mx: "max (expo q - 52) (- 1074) = p" using k by (simp add: ex p_def)
  have "rnd_rat q = of_int (round_even (q * 2 ^ k)) * 2 powi p"
    using qpos by (simp add: rnd_rat_def Let_def mx sc)
  also have "\<dots> = of_int m / 2 ^ k"
    unfolding round_even_near[OF near] by (simp add: pk)
  finally have r: "rnd_rat q = of_int m / 2 ^ k" .
  have "0 < m" using m by simp
  then have mp: "(0::rat) < of_int m" by simp
  have rpos: "(0::rat) < of_int m / 2 ^ k" using mp by simp
  have "(of_int m :: rat) / 2 ^ k \<le> of_int m / 1"
    using mp by (intro divide_left_mono) simp_all
  also have "\<dots> = of_int m" by simp
  also have "\<dots> \<le> max_finite" using mlt by (simp add: max_finite_def)
  finally have "(of_int m :: rat) / 2 ^ k \<le> max_finite" .
  then show ?thesis
    using qpos r rpos by (simp add: round64_def Let_def abs_of_pos)
qed

lemma fmul_pos:
  "0 < a \<Longrightarrow> 0 < b \<Longrightarrow> fmul (Finite a) (Finite b) = round64 False (a * b)"
  by (simp add: fmul_def not_less less_imp_le)

lemma fdiv_pos:
  "0 < a \<Longrightarrow> 0 < b \<Longrightarrow> fdiv (Finite a) (Finite b) = round64 False (a / b)"
  by (simp add: fdiv_def not_less less_imp_le)

lemma float_lit_002: "float_lit (2 / 100) = Finite (5764607523034235 / 2 ^ 58)"
  unfolding float_lit_def using round64_cert[of 5764607523034235 58 "2 / 100"] by simp

lemma TCRE_value: "TCRE = Finite (5944751508129055 / 2 ^ 52)"
  unfolding TCRE_def float_lit_def
  using round64_cert[of 5944751508129055 52 "132 / 100"] by simp

lemma float_lit_3664: "float_lit (3664 / 1000) = Finite (8250594517342749 / 2 ^ 51)"
  unfolding float_lit_def using round64_cert[of 8250594517342749 51 "3664 / 1000"] by simp

lemma float_lit_1e12: "float_lit (10 ^ 12) = Finite (10 ^ 12)"
  using float_lit_int[of "10 ^ 12"] by simp

lemma float_lit_1: "float_lit 1 = Finite 1"
  using float_lit_int[of 1] by simp

lemma float_of_int_12: "float_of_int 12 = Finite 12"
  using float_of_int_exact[of 12] by simp

lemma twenty: "fmul (float_of_int 1000) (float_lit (2 / 100)) = Finite 20"
proof -
  have "float_of_int 1000 = Finite 1000" using float_of_int_exact[of 1000] by simp
  moreover have "round64 False (1000 * (5764607523034235 / 2 ^ 58)) = Finite 20"
    using round64_cert[of 5629499534213120 48 "1000 * (5764607523034235 / 2 ^ 58)"] by simp
  ultimately show ?thesis
    unfolding float_lit_002 by (simp only: fmul_pos) (simp add: fmul_pos)
qed

lemma E_value: "E = Finite (8529544748807757 / 2 ^ 49)"
proof -
  have "round64 False (20 / (5944751508129055 / 2 ^ 52)) = Finite (8529544748807757 / 2 ^ 49)"
    using round64_cert[of 8529544748807757 49 "20 / (5944751508129055 / 2 ^ 52)"] by simp
  then show ?thesis
    unfolding E_def twenty TCRE_value by (simp add: fdiv_pos)
qed

lemma ones_times_E: "fmul (float_lit 1) E = E"
proof -
  have "round64 False (1 * (8529544748807757 / 2 ^ 49)) = Finite (8529544748807757 / 2 ^ 49)"
    using round64_cert[of 8529544748807757 49 "1 * (8529544748807757 / 2 ^ 49)"] by simp
  then show ?thesis
    unfolding float_lit_1 E_value by (simp add: fmul_pos)
qed

lemma budget_value: "budget = Finite (7105939393939394 / 2 ^ 7)"
proof -
  have a: "round64 False ((8529544748807757 / 2 ^ 49) * 10 ^ 12) = Finite (7757575757575757 / 2 ^ 9)"
    using round64_cert[of 7757575757575757 9 "(8529544748807757 / 2 ^ 49) * 10 ^ 12"] by simp
  have b: "round64 False ((7757575757575757 / 2 ^ 9) * (8250594517342749 / 2 ^ 51))
           = Finite (7105939393939394 / 2 ^ 7)"
    using round64_cert[of 7105939393939394 7
        "(7757575757575757 / 2 ^ 9) * (8250594517342749 / 2 ^ 51)"] by simp
  have "fmul E (float_lit (10 ^ 12)) = Finite (7757575757575757 / 2 ^ 9)"
    unfolding E_value float_lit_1e12 using a by (simp add: fmul_pos)
  then show ?thesis
    unfolding budget_def float_lit_3664 using b by (simp add: fmul_pos)
qed


section \<open>The value of the flux\<close>

lemma seconds_of_month:
  assumes "1 \<le> iy" "iy \<le> 250" "1 \<le> im" "im \<le> 12"
  shows "fmul (fsub (tb1_at iy im) (tb0_at iy im)) (float_lit 86400)
         = float_of_int (dayim ! nat (im - 1) * 86400)"
proof -
  note t = month_tables(7,8)[OF assms(3,4)]
  have p: "0 < dayim ! nat (im - 1)" "dayim ! nat (im - 1) * 86400 < 2 ^ 53"
    using t by simp_all
  have l: "float_lit 86400 = Finite (of_int 86400)"
    using float_lit_int[of 86400] by simp
  have "fmul (Finite (of_int (dayim ! nat (im - 1)))) (Finite (of_int 86400))
        = Finite (of_int (dayim ! nat (im - 1) * 86400))"
    using p by (intro fmul_int) simp_all
  moreover have "float_of_int (dayim ! nat (im - 1) * 86400)
        = Finite (of_int (dayim ! nat (im - 1) * 86400))"
    using p by (intro float_of_int_exact) simp_all
  ultimately show ?thesis
    unfolding tb_diff[OF assms] l by simp
qed

lemma flux_at_value:
  assumes "1 \<le> iy" "iy \<le> 250" "1 \<le> im" "im \<le> 12"
  shows "flux_at start_year totarea iy im = full (flux_rate totarea im)"
proof -
  have g: "start_year \<le> iy \<and> iy < start_year + 250"
    using assms by (simp add: start_year_def)
  show ?thesis
    unfolding flux_at_def if_P[OF g] ones_times_E seconds_of_month[OF assms]
      flux_rate_def budget_def ..
qed

lemma filled_flux:
  assumes "1 \<le> iy" "iy \<le> 250" "1 \<le> im" "im \<le> 12" "lat < 96" "lon < 144"
  shows "co2flx (filled start_year totarea 3000) ! nat ((iy - 1) * 12 + im - 1) ! lat ! lon
         = flux_rate totarea im"
proof -
  note d = idx_decode[OF assms(1-4)]
  have "co2flx (filled start_year totarea 3000) ! nat ((iy - 1) * 12 + im - 1)
        = flux_at start_year totarea iy im"
    using filled_nth(5)[OF d(1)] d(2,3) by simp
  then show ?thesis
    using flux_at_value[OF assms(1-4)] assms(5,6) by (simp add: full_nth)
qed

lemma flux_chain_28:
  "fdiv (fdiv (fdiv budget (float_of_int (28 * 86400))) (Finite 510000000000000)) (float_of_int 12)
   = Finite (4533023667852501 / 2 ^ 80)"
proof -
  have d: "float_of_int (28 * 86400) = Finite 2419200"
    using float_of_int_exact[of "28 * 86400"] by simp
  have a: "round64 False ((7105939393939394 / 2 ^ 7) / 2419200) = Finite (6159984710598044 / 2 ^ 28)"
    using round64_cert[of 6159984710598044 28 "(7105939393939394 / 2 ^ 7) / 2419200"] by simp
  have b: "round64 False ((6159984710598044 / 2 ^ 28) / 510000000000000) = Finite (6799535501778751 / 2 ^ 77)"
    using round64_cert[of 6799535501778751 77 "(6159984710598044 / 2 ^ 28) / 510000000000000"] by simp
  have c: "round64 False ((6799535501778751 / 2 ^ 77) / 12) = Finite (4533023667852501 / 2 ^ 80)"
    using round64_cert[of 4533023667852501 80 "(6799535501778751 / 2 ^ 77) / 12"] by simp
  have "fdiv budget (float_of_int (28 * 86400)) = Finite (6159984710598044 / 2 ^ 28)"
    unfolding budget_value d using a by (simp add: fdiv_pos)
  then have "fdiv (fdiv budget (float_of_int (28 * 86400))) (Finite 510000000000000)
             = Finite (6799535501778751 / 2 ^ 77)"
    using b by (simp add: fdiv_pos)
  then show ?thesis
    unfolding float_of_int_12 using c by (simp add: fdiv_pos)
qed

lemma flux_chain_30:
  "fdiv (fdiv (fdiv budget (float_of_int (30 * 86400))) (Finite 510000000000000)) (float_of_int 12)
   = Finite (8461644179991335 / 2 ^ 81)"
proof -
  have d: "float_of_int (30 * 86400) = Finite 2592000"
    using float_of_int_exact[of "30 * 86400"] by simp
  have a: "round64 False ((7105939393939394 / 2 ^ 7) / 2592000) = Finite (5749319063224841 / 2 ^ 28)"
    using round64_cert[of 5749319063224841 28 "(7105939393939394 / 2 ^ 7) / 2592000"] by simp
  have b: "round64 False ((5749319063224841 / 2 ^ 28) / 510000000000000) = Finite (6346233134993501 / 2 ^ 77)"
    using round64_cert[of 6346233134993501 77 "(5749319063224841 / 2 ^ 28) / 510000000000000"] by simp
  have c: "round64 False ((6346233134993501 / 2 ^ 77) / 12) = Finite (8461644179991335 / 2 ^ 81)"
    using round64_cert[of 8461644179991335 81 "(6346233134993501 / 2 ^ 77) / 12"] by simp
  have "fdiv budget (float_of_int (30 * 86400)) = Finite (5749319063224841 / 2 ^ 28)"
    unfolding budget_value d using a by (simp add: fdiv_pos)
  then have "fdiv (fdiv budget (float_of_int (30 * 86400))) (Finite 510000000000000)
             = Finite (6346233134993501 / 2 ^ 77)"
    using b by (simp add: fdiv_pos)
  then show ?thesis
    unfolding float_of_int_12 using c by (simp add: fdiv_pos)
qed

lemma flux_chain_31:
  "fdiv (fdiv (fdiv budget (float_of_int (31 * 86400))) (Finite 510000000000000)) (float_of_int 12)
   = Finite (8188687916120647 / 2 ^ 81)"
proof -
  have d: "float_of_int (31 * 86400) = Finite 2678400"
    using float_of_int_exact[of "31 * 86400"] by simp
  have a: "round64 False ((7105939393939394 / 2 ^ 7) / 2678400) = Finite (5563857157959524 / 2 ^ 28)"
    using round64_cert[of 5563857157959524 28 "(7105939393939394 / 2 ^ 7) / 2678400"] by simp
  have b: "round64 False ((5563857157959524 / 2 ^ 28) / 510000000000000) = Finite (6141515937090485 / 2 ^ 77)"
    using round64_cert[of 6141515937090485 77 "(5563857157959524 / 2 ^ 28) / 510000000000000"] by simp
  have c: "round64 False ((6141515937090485 / 2 ^ 77) / 12) = Finite (8188687916120647 / 2 ^ 81)"
    using round64_cert[of 8188687916120647 81 "(6141515937090485 / 2 ^ 77) / 12"] by simp
  have "fdiv budget (float_of_int (31 * 86400)) = Finite (5563857157959524 / 2 ^ 28)"
    unfolding budget_value d using a by (simp add: fdiv_pos)
  then have "fdiv (fdiv budget (float_of_int (31 * 86400))) (Finite 510000000000000)
             = Finite (6141515937090485 / 2 ^ 77)"
    using b by (simp add: fdiv_pos)
  then show ?thesis
    unfolding float_of_int_12 using c by (simp add: fdiv_pos)
qed


text \<open>
  Claim C1. For every year \<open>iy\<close> in \<open>[1, 250]\<close> and month \<open>im\<close> in \<open>[1, 12]\<close>, every latitude
  and longitude entry of the flux at the index \<open>(iy - 1) * 12 + im - 1\<close> is the rate
  \<open>E = 1000 * 0.02 / 1.32\<close> carried through the chain
  \<open>E * 1e12 * 3.664 / (dayim[im - 1] * 86400) / totarea / 12\<close>, each operation being the
  float operation of the script, for every total area.
\<close>

theorem flux_is_uniform_rate:
  assumes "1 \<le> iy" "iy \<le> 250" "1 \<le> im" "im \<le> 12" "lat < 96" "lon < 144"
  shows "\<exists>s. fill_arrays start_year totarea = Inr s \<and>
           co2flx s ! nat ((iy - 1) * 12 + im - 1) ! lat ! lon
             = fdiv (fdiv (fdiv (fmul (fmul E (float_lit (10 ^ 12))) (float_lit (3664 / 1000)))
                                (float_of_int (dayim ! nat (im - 1) * 86400)))
                          totarea)
                    (float_of_int 12) \<and>
           E = fdiv (fmul (float_of_int 1000) (float_lit (2 / 100))) (float_lit (132 / 100))"
  using fill_arrays_filled[of start_year totarea] filled_flux[OF assms]
  by (simp add: flux_rate_def budget_def E_def TCRE_def)

theorem flux_is_uniform_rate_witness:
  "\<exists>s. fill_arrays start_year (Finite 510000000000000) = Inr s \<and>
     co2flx s ! 13 ! 95 ! 143 = Finite (4533023667852501 / 2 ^ 80)"
proof -
  have i: "(1::int) \<le> 2" "(2::int) \<le> 250" "(2::int) \<le> 12" "(95::nat) < 96" "(143::nat) < 144"
    "nat ((2 - 1) * 12 + 2 - 1) = 13" "dayim ! nat (2 - 1) = 28"
    by (simp_all add: dayim_def)
  show ?thesis
    using flux_is_uniform_rate[OF i(1,2,1,3,4,5), of "Finite 510000000000000"]
    unfolding i(6,7) budget_def[symmetric] flux_chain_28 by blast
qed

text \<open>
  Claim C10. The flux depends on the month and not on the year: for two years in
  \<open>[1, 250]\<close> and a month in \<open>[1, 12]\<close> the entries at the two indices are equal at every
  grid cell, both being the value of the chain of claim C1 for that month.
\<close>

theorem flux_same_every_year:
  assumes "1 \<le> iy1" "iy1 \<le> 250" "1 \<le> iy2" "iy2 \<le> 250" "1 \<le> im" "im \<le> 12"
    "lat < 96" "lon < 144"
  shows "\<exists>s. fill_arrays start_year totarea = Inr s \<and>
           co2flx s ! nat ((iy1 - 1) * 12 + im - 1) ! lat ! lon
             = co2flx s ! nat ((iy2 - 1) * 12 + im - 1) ! lat ! lon \<and>
           co2flx s ! nat ((iy1 - 1) * 12 + im - 1) ! lat ! lon
             = fdiv (fdiv (fdiv (fmul (fmul E (float_lit (10 ^ 12))) (float_lit (3664 / 1000)))
                                (float_of_int (dayim ! nat (im - 1) * 86400)))
                          totarea)
                    (float_of_int 12)"
  using fill_arrays_filled[of start_year totarea]
    filled_flux[OF assms(1,2,5,6,7,8)] filled_flux[OF assms(3,4,5,6,7,8)]
  by (simp add: flux_rate_def budget_def)

theorem flux_same_every_year_witness:
  "\<exists>s. fill_arrays start_year (Finite 510000000000000) = Inr s \<and>
     co2flx s ! 1 ! 10 ! 20 = co2flx s ! 2989 ! 10 ! 20 \<and>
     co2flx s ! 1 ! 10 ! 20 = Finite (4533023667852501 / 2 ^ 80)"
proof -
  have i: "(1::int) \<le> 1" "(1::int) \<le> 250" "(1::int) \<le> 250" "(250::int) \<le> 250"
    "(1::int) \<le> 2" "(2::int) \<le> 12" "(10::nat) < 96" "(20::nat) < 144"
    and j: "nat ((1 - 1) * 12 + 2 - 1) = 1" "nat ((250 - 1) * 12 + 2 - 1) = 2989"
    "dayim ! nat (2 - 1) = 28"
    by (simp_all add: dayim_def)
  show ?thesis
    using flux_same_every_year[OF i, of "Finite 510000000000000"]
    unfolding j budget_def[symmetric] flux_chain_28 by blast
qed


section \<open>The annual budget\<close>

text \<open>
  A rounding in the normal range changes a positive number by at most the fraction
  \<open>2\<^sup>-\<^sup>5\<^sup>3\<close> of it. The three divisions of the chain therefore keep the product of flux,
  area and seconds within the factor \<open>(1 \<plusminus> 2\<^sup>-\<^sup>5\<^sup>3)\<^sup>3\<close> of one twelfth of the budget.
\<close>

lemma rnd_rat_rel:
  assumes "1 / 2 ^ 1022 \<le> q"
  shows "\<bar>rnd_rat q - q\<bar> \<le> q / 2 ^ 53"
proof -
  have qpos: "0 < q" using assms by (rule less_le_trans[rotated]) simp
  note b = expo_bounds[OF qpos]
  have lo: "(2::rat) powi (- 1022) \<le> q"
    using assms by (simp add: power_int_minus field_simps)
  have e: "- 1022 \<le> expo q"
  proof (rule ccontr)
    assume "\<not> - 1022 \<le> expo q"
    then have "expo q + 1 \<le> - 1022" by simp
    then have "(2::rat) powi (expo q + 1) \<le> 2 powi (- 1022)"
      by (intro power_int_increasing) simp_all
    then show False using b(2) lo by simp
  qed
  define p where "p = expo q - 52"
  have mx: "max (expo q - 52) (- 1074) = p" using e by (simp add: p_def)
  define y where "y = q / 2 powi p"
  have r: "rnd_rat q = of_int (round_even y) * 2 powi p"
    using qpos by (simp add: rnd_rat_def Let_def mx y_def)
  have q: "q = y * 2 powi p" by (simp add: y_def)
  have "rnd_rat q - q = (of_int (round_even y) - y) * 2 powi p"
    unfolding r by (simp add: left_diff_distrib q[symmetric])
  then have "\<bar>rnd_rat q - q\<bar> = \<bar>of_int (round_even y) - y\<bar> * 2 powi p"
    by (simp add: abs_mult)
  also have "\<dots> \<le> (1 / 2) * 2 powi p"
    using round_even_err[of y] by (intro mult_right_mono) simp_all
  also have "\<dots> = 2 powi expo q / 2 ^ 53"
  proof -
    have "(2::rat) powi p = 2 powi expo q / 2 powi 52"
      unfolding p_def by (rule power_int_diff) simp
    then show ?thesis by simp
  qed
  also have "\<dots> \<le> q / 2 ^ 53"
    using b(1) by (simp add: divide_right_mono)
  finally show ?thesis .
qed

lemma round64_rel:
  assumes "1 / 2 ^ 1022 \<le> q" "q \<le> 2 ^ 1000"
  shows "\<exists>r. round64 False q = Finite r \<and> (1 - 1 / 2 ^ 53) * q \<le> r \<and> r \<le> (1 + 1 / 2 ^ 53) * q"
proof -
  have qpos: "0 < q" using assms(1) by (rule less_le_trans[rotated]) simp
  define r where "r = rnd_rat q"
  have a: "\<bar>r - q\<bar> \<le> q / 2 ^ 53" unfolding r_def by (rule rnd_rat_rel[OF assms(1)])
  have "r - q \<le> q / 2 ^ 53" "- (r - q) \<le> q / 2 ^ 53"
    by (rule abs_le_D1[OF a], rule abs_le_D2[OF a])
  then have lo: "(1 - 1 / 2 ^ 53) * q \<le> r" and hi: "r \<le> (1 + 1 / 2 ^ 53) * q"
    by (simp_all add: field_simps)
  have "(0::rat) < (1 - 1 / 2 ^ 53) * q" using qpos by simp
  then have rpos: "0 < r" using lo by (rule less_le_trans)
  have "(1 + 1 / 2 ^ 53) * q \<le> (1 + 1 / 2 ^ 53) * 2 ^ 1000"
    using assms(2) by (intro mult_left_mono) simp_all
  with hi have "r \<le> (1 + 1 / 2 ^ 53) * 2 ^ 1000" by (rule order_trans)
  also have "\<dots> \<le> max_finite" by (simp add: max_finite_def)
  finally have "r \<le> max_finite" .
  then have "round64 False q = Finite r"
    using qpos rpos by (simp add: round64_def Let_def abs_of_pos r_def[symmetric])
  then show ?thesis using lo hi by blast
qed

lemma fdiv_rel:
  assumes "0 < a" "0 < b" "1 / 2 ^ 1022 \<le> a / b" "a / b \<le> 2 ^ 1000"
  shows "\<exists>r. fdiv (Finite a) (Finite b) = Finite r \<and>
           (1 - 1 / 2 ^ 53) * (a / b) \<le> r \<and> r \<le> (1 + 1 / 2 ^ 53) * (a / b)"
  unfolding fdiv_pos[OF assms(1,2)] by (rule round64_rel[OF assms(3,4)])

lemma month_term:
  assumes d: "1 \<le> d" "d \<le> 366" and A: "1 / 2 ^ 900 \<le> A" "A \<le> 2 ^ 900"
  shows "\<exists>r. fdiv (fdiv (fdiv budget (float_of_int (d * 86400))) (Finite A)) (float_of_int 12)
               = Finite r \<and>
             (1 - 1 / 2 ^ 53) ^ 3 * valof budget \<le> 12 * (r * A * (of_int d * 86400)) \<and>
             12 * (r * A * (of_int d * 86400)) \<le> (1 + 1 / 2 ^ 53) ^ 3 * valof budget"
proof -
  define u :: rat where "u = 1 / 2 ^ 53"
  define X :: rat where "X = 7105939393939394 / 2 ^ 7"
  define D :: rat where "D = of_int d * 86400"
  have u: "0 < u" "u < 1 / 2" by (simp_all add: u_def)
  have um: "0 \<le> 1 - u" "0 \<le> 1 + u" "1 / 2 \<le> 1 - u" "1 + u \<le> 2" using u by simp_all
  have Xpos: "0 < X" by (simp add: X_def)
  have Apos: "0 < A" using A(1) by (rule less_le_trans[rotated]) simp
  have "(of_int 1 :: rat) \<le> of_int d" "(of_int d :: rat) \<le> of_int 366"
    using d by (simp_all only: of_int_le_iff)
  then have Dr: "86400 \<le> D" "D \<le> 31622400" by (simp_all add: D_def)
  then have Dpos: "0 < D" by simp
  have fD: "float_of_int (d * 86400) = Finite D"
    using float_of_int_exact[of "d * 86400"] d by (simp add: D_def)
  \<comment> \<open>the division by the seconds of the month\<close>
  have q1: "1 \<le> X / D" "X / D \<le> 2 ^ 30"
    using Dr Dpos by (simp_all add: X_def pos_le_divide_eq pos_divide_le_eq)
  have c1: "(1::rat) / 2 ^ 1022 \<le> 1" by simp
  have c2: "(2::rat) ^ 30 \<le> 2 ^ 1000" by (rule power_increasing) simp_all
  have "1 / 2 ^ 1022 \<le> X / D" "X / D \<le> 2 ^ 1000"
    using order_trans[OF c1 q1(1)] order_trans[OF q1(2) c2] .
  from fdiv_rel[OF Xpos Dpos this] obtain r1 where
    r1: "fdiv (Finite X) (Finite D) = Finite r1" "(1 - u) * (X / D) \<le> r1" "r1 \<le> (1 + u) * (X / D)"
    unfolding u_def by blast
  have r1lo: "1 / 2 \<le> r1"
  proof -
    have "(1::rat) / 2 = 1 / 2 * 1" by simp
    also have "\<dots> \<le> (1 - u) * (X / D)" using um(3) q1(1) by (intro mult_mono) simp_all
    also note r1(2)
    finally show ?thesis .
  qed
  have r1hi: "r1 \<le> 2 ^ 31"
  proof -
    note r1(3)
    also have "(1 + u) * (X / D) \<le> 2 * 2 ^ 30" using um(4) q1 um(2) by (intro mult_mono) simp_all
    also have "\<dots> = (2::rat) ^ 31" by simp
    finally show ?thesis .
  qed
  have r1pos: "0 < r1" using r1lo by simp
  have s1: "(1 - u) * X \<le> r1 * D" "r1 * D \<le> (1 + u) * X"
  proof -
    have "(1 - u) * (X / D) * D \<le> r1 * D" using r1(2) Dpos by (intro mult_right_mono) simp_all
    then show "(1 - u) * X \<le> r1 * D" using Dpos by simp
    have "r1 * D \<le> (1 + u) * (X / D) * D" using r1(3) Dpos by (intro mult_right_mono) simp_all
    then show "r1 * D \<le> (1 + u) * X" using Dpos by simp
  qed
  \<comment> \<open>the division by the total area\<close>
  have q2: "1 / 2 ^ 901 \<le> r1 / A" "r1 / A \<le> 2 ^ 931"
  proof -
    have "1 / 2 ^ 901 * A \<le> 1 / 2 ^ 901 * 2 ^ 900" using A(2) by (intro mult_left_mono) simp_all
    also have "\<dots> = 1 / 2" by simp
    also have "\<dots> \<le> r1" by (rule r1lo)
    finally show "1 / 2 ^ 901 \<le> r1 / A" using Apos by (simp add: pos_le_divide_eq)
    have "r1 \<le> 2 ^ 31" by (rule r1hi)
    also have "\<dots> = 2 ^ 931 * (1 / 2 ^ 900)" by simp
    also have "\<dots> \<le> 2 ^ 931 * A" using A(1) by (intro mult_left_mono) simp_all
    finally show "r1 / A \<le> 2 ^ 931" using Apos by (simp add: pos_divide_le_eq)
  qed
  have c3: "(1::rat) / 2 ^ 1022 \<le> 1 / 2 ^ 901"
    by (intro divide_left_mono power_increasing) simp_all
  have c4: "(2::rat) ^ 931 \<le> 2 ^ 1000" by (rule power_increasing) simp_all
  have "1 / 2 ^ 1022 \<le> r1 / A" "r1 / A \<le> 2 ^ 1000"
    using order_trans[OF c3 q2(1)] order_trans[OF q2(2) c4] .
  from fdiv_rel[OF r1pos Apos this] obtain r2 where
    r2: "fdiv (Finite r1) (Finite A) = Finite r2" "(1 - u) * (r1 / A) \<le> r2" "r2 \<le> (1 + u) * (r1 / A)"
    unfolding u_def by blast
  have r2lo: "1 / 2 ^ 902 \<le> r2"
  proof -
    have "(1::rat) / 2 ^ 902 = 1 / 2 * (1 / 2 ^ 901)" by simp
    also have "\<dots> \<le> (1 - u) * (r1 / A)" using um(3) q2(1) by (intro mult_mono) simp_all
    also note r2(2)
    finally show ?thesis .
  qed
  have r2hi: "r2 \<le> 2 ^ 932"
  proof -
    have "0 \<le> r1 / A" using r1pos Apos by simp
    then have "(1 + u) * (r1 / A) \<le> 2 * 2 ^ 931" using um(4) q2(2) um(2) by (intro mult_mono) simp_all
    with r2(3) have "r2 \<le> 2 * 2 ^ 931" by (rule order_trans)
    also have "\<dots> = (2::rat) ^ 932" by simp
    finally show ?thesis .
  qed
  have r2pos: "0 < r2" using r2lo by (rule less_le_trans[rotated]) simp
  have s2: "(1 - u) * r1 \<le> r2 * A" "r2 * A \<le> (1 + u) * r1"
  proof -
    have "(1 - u) * (r1 / A) * A \<le> r2 * A" using r2(2) Apos by (intro mult_right_mono) simp_all
    then show "(1 - u) * r1 \<le> r2 * A" using Apos by simp
    have "r2 * A \<le> (1 + u) * (r1 / A) * A" using r2(3) Apos by (intro mult_right_mono) simp_all
    then show "r2 * A \<le> (1 + u) * r1" using Apos by simp
  qed
  \<comment> \<open>the division by 12\<close>
  have c5: "(1::rat) / 2 ^ 1022 \<le> 1 / 2 ^ 902 / 12"
  proof -
    have "(1::rat) / 2 ^ 1022 \<le> 1 / 2 ^ 906"
      by (intro divide_left_mono power_increasing) simp_all
    also have "\<dots> = 1 / 2 ^ 902 / 2 ^ 4" by (simp add: power_add[symmetric])
    also have "\<dots> \<le> 1 / 2 ^ 902 / 12" by (intro divide_left_mono) simp_all
    finally show ?thesis .
  qed
  have c6: "(2::rat) ^ 932 / 12 \<le> 2 ^ 1000"
  proof -
    have "(2::rat) ^ 932 / 12 \<le> 2 ^ 932 / 1" by (intro divide_left_mono) simp_all
    also have "\<dots> \<le> 2 ^ 1000" by simp
    finally show ?thesis .
  qed
  have "1 / 2 ^ 902 / 12 \<le> r2 / 12" "r2 / 12 \<le> 2 ^ 932 / 12"
    using r2lo r2hi by (simp_all only: divide_right_mono zero_le_numeral)
  then have "1 / 2 ^ 1022 \<le> r2 / 12" "r2 / 12 \<le> 2 ^ 1000"
    using order_trans[OF c5] order_trans[OF _ c6] by blast+
  from fdiv_rel[OF r2pos _ this, of] obtain r3 where
    r3: "fdiv (Finite r2) (Finite 12) = Finite r3" "(1 - u) * (r2 / 12) \<le> r3" "r3 \<le> (1 + u) * (r2 / 12)"
    unfolding u_def by auto
  have s3: "(1 - u) * r2 \<le> 12 * r3" "12 * r3 \<le> (1 + u) * r2"
    using r3(2,3) by simp_all
  have chain: "fdiv (fdiv (fdiv budget (float_of_int (d * 86400))) (Finite A)) (float_of_int 12)
               = Finite r3"
    unfolding budget_value fD float_of_int_12 X_def[symmetric] r1(1) r2(1) r3(1) ..
  have AD: "0 \<le> A" "0 \<le> D" "0 \<le> A * D" using Apos Dpos by simp_all
  have up: "12 * (r3 * A * D) \<le> (1 + u) ^ 3 * X"
  proof -
    have "12 * (r3 * A * D) = (12 * r3) * (A * D)" by simp
    also have "\<dots> \<le> ((1 + u) * r2) * (A * D)" using s3(2) AD(3) by (rule mult_right_mono)
    also have "\<dots> = (1 + u) * (r2 * A) * D" by simp
    also have "\<dots> \<le> (1 + u) * ((1 + u) * r1) * D"
      using s2(2) um(2) AD(2) by (intro mult_right_mono mult_left_mono)
    also have "\<dots> = (1 + u) ^ 2 * (r1 * D)" by (simp add: power2_eq_square)
    also have "\<dots> \<le> (1 + u) ^ 2 * ((1 + u) * X)" using s1(2) by (intro mult_left_mono) simp_all
    also have "\<dots> = (1 + u) ^ 3 * X" by (simp add: power3_eq_cube power2_eq_square)
    finally show ?thesis .
  qed
  have dn: "(1 - u) ^ 3 * X \<le> 12 * (r3 * A * D)"
  proof -
    have "(1 - u) ^ 3 * X = (1 - u) ^ 2 * ((1 - u) * X)" by (simp add: power3_eq_cube power2_eq_square)
    also have "\<dots> \<le> (1 - u) ^ 2 * (r1 * D)" using s1(1) by (intro mult_left_mono) simp_all
    also have "\<dots> = (1 - u) * ((1 - u) * r1) * D" by (simp add: power2_eq_square)
    also have "\<dots> \<le> (1 - u) * (r2 * A) * D"
      using s2(1) um(1) AD(2) by (intro mult_right_mono mult_left_mono)
    also have "\<dots> = ((1 - u) * r2) * (A * D)" by simp
    also have "\<dots> \<le> (12 * r3) * (A * D)" using s3(1) AD(3) by (rule mult_right_mono)
    also have "\<dots> = 12 * (r3 * A * D)" by simp
    finally show ?thesis .
  qed
  show ?thesis
    using chain up dn unfolding budget_value valof.simps X_def[symmetric] D_def u_def by blast
qed

lemma sum_list_bounds:
  fixes f :: "'a \<Rightarrow> rat"
  assumes "\<And>x. x \<in> set xs \<Longrightarrow> lo \<le> f x \<and> f x \<le> hi"
  shows "of_nat (length xs) * lo \<le> sum_list (map f xs) \<and>
         sum_list (map f xs) \<le> of_nat (length xs) * hi"
  using assms
proof (induction xs)
  case Nil
  then show ?case by simp
next
  case (Cons x xs)
  have "lo \<le> f x" "f x \<le> hi" using Cons.prems[of x] by simp_all
  moreover have "of_nat (length xs) * lo \<le> sum_list (map f xs)"
    "sum_list (map f xs) \<le> of_nat (length xs) * hi"
    using Cons.IH Cons.prems by simp_all
  ultimately show ?case by (simp add: algebra_simps)
qed

lemma annual_budget_filled:
  assumes "1 \<le> iy" "iy \<le> 250" "lat < 96" "lon < 144"
  shows "annual_budget totarea iy lat lon =
         Inr (sum_list (map (\<lambda>im. valof (flux_rate totarea im) * valof totarea
                                    * (of_int (dayim ! nat (im - 1)) * 86400)) [1..12]))"
proof -
  have "map (\<lambda>im. valof (co2flx (filled start_year totarea 3000)
                            ! nat ((iy - 1) * 12 + im - 1) ! lat ! lon)
                    * valof totarea * (of_int (dayim ! nat (im - 1)) * 86400)) [1..12]
        = map (\<lambda>im. valof (flux_rate totarea im) * valof totarea
                    * (of_int (dayim ! nat (im - 1)) * 86400)) [1..12]"
  proof (rule map_cong[OF refl])
    fix im :: int assume "im \<in> set [1..12]"
    then have "1 \<le> im" "im \<le> 12" by simp_all
    from filled_flux[OF assms(1,2) this assms(3,4)]
    show "valof (co2flx (filled start_year totarea 3000)
                   ! nat ((iy - 1) * 12 + im - 1) ! lat ! lon)
            * valof totarea * (of_int (dayim ! nat (im - 1)) * 86400)
          = valof (flux_rate totarea im) * valof totarea
            * (of_int (dayim ! nat (im - 1)) * 86400)"
      by simp
  qed
  then show ?thesis
    unfolding annual_budget_def fill_arrays_filled and_then_simps
    by (rule arg_cong[where f = "\<lambda>l. Inr (sum_list l)"])
qed

lemma flux_rate_months:
  "flux_rate (Finite 510000000000000) 1 = Finite (8188687916120647 / 2 ^ 81)"
  "flux_rate (Finite 510000000000000) 2 = Finite (4533023667852501 / 2 ^ 80)"
  "flux_rate (Finite 510000000000000) 3 = Finite (8188687916120647 / 2 ^ 81)"
  "flux_rate (Finite 510000000000000) 4 = Finite (8461644179991335 / 2 ^ 81)"
  "flux_rate (Finite 510000000000000) 5 = Finite (8188687916120647 / 2 ^ 81)"
  "flux_rate (Finite 510000000000000) 6 = Finite (8461644179991335 / 2 ^ 81)"
  "flux_rate (Finite 510000000000000) 7 = Finite (8188687916120647 / 2 ^ 81)"
  "flux_rate (Finite 510000000000000) 8 = Finite (8188687916120647 / 2 ^ 81)"
  "flux_rate (Finite 510000000000000) 9 = Finite (8461644179991335 / 2 ^ 81)"
  "flux_rate (Finite 510000000000000) 10 = Finite (8188687916120647 / 2 ^ 81)"
  "flux_rate (Finite 510000000000000) 11 = Finite (8461644179991335 / 2 ^ 81)"
  "flux_rate (Finite 510000000000000) 12 = Finite (8188687916120647 / 2 ^ 81)"
proof -
  show "flux_rate (Finite 510000000000000) 1 = Finite (8188687916120647 / 2 ^ 81)"
    unfolding flux_rate_def using flux_chain_31 by (simp add: dayim_def)
  show "flux_rate (Finite 510000000000000) 2 = Finite (4533023667852501 / 2 ^ 80)"
    unfolding flux_rate_def using flux_chain_28 by (simp add: dayim_def)
  show "flux_rate (Finite 510000000000000) 3 = Finite (8188687916120647 / 2 ^ 81)"
    unfolding flux_rate_def using flux_chain_31 by (simp add: dayim_def)
  show "flux_rate (Finite 510000000000000) 4 = Finite (8461644179991335 / 2 ^ 81)"
    unfolding flux_rate_def using flux_chain_30 by (simp add: dayim_def)
  show "flux_rate (Finite 510000000000000) 5 = Finite (8188687916120647 / 2 ^ 81)"
    unfolding flux_rate_def using flux_chain_31 by (simp add: dayim_def)
  show "flux_rate (Finite 510000000000000) 6 = Finite (8461644179991335 / 2 ^ 81)"
    unfolding flux_rate_def using flux_chain_30 by (simp add: dayim_def)
  show "flux_rate (Finite 510000000000000) 7 = Finite (8188687916120647 / 2 ^ 81)"
    unfolding flux_rate_def using flux_chain_31 by (simp add: dayim_def)
  show "flux_rate (Finite 510000000000000) 8 = Finite (8188687916120647 / 2 ^ 81)"
    unfolding flux_rate_def using flux_chain_31 by (simp add: dayim_def)
  show "flux_rate (Finite 510000000000000) 9 = Finite (8461644179991335 / 2 ^ 81)"
    unfolding flux_rate_def using flux_chain_30 by (simp add: dayim_def)
  show "flux_rate (Finite 510000000000000) 10 = Finite (8188687916120647 / 2 ^ 81)"
    unfolding flux_rate_def using flux_chain_31 by (simp add: dayim_def)
  show "flux_rate (Finite 510000000000000) 11 = Finite (8461644179991335 / 2 ^ 81)"
    unfolding flux_rate_def using flux_chain_30 by (simp add: dayim_def)
  show "flux_rate (Finite 510000000000000) 12 = Finite (8188687916120647 / 2 ^ 81)"
    unfolding flux_rate_def using flux_chain_31 by (simp add: dayim_def)
qed

lemma months_list: "[1..12] = [1, 2, 3, 4, 5, 6, 7, 8, 9, 10, 11, 12 :: int]"
  by (simp add: upto_rec1)

lemma annual_budget_example:
  "annual_budget (Finite 510000000000000) 1 0 0 = Inr (128009224026651143247528076171875 / 2305843009213693952)"
proof -
  have i: "(1::int) \<le> 1" "(1::int) \<le> 250" "(0::nat) < 96" "(0::nat) < 144" by simp_all
  show ?thesis
    unfolding annual_budget_filled[OF i] months_list list.map flux_rate_months valof.simps
    by (simp add: dayim_def)
qed

text \<open>
  Claim C9 says that for every year the sum over its twelve months of flux times total
  area times the seconds of the month equals \<open>E * 1e12 * 3.664\<close> exactly. It does not: with
  the total area \<open>5.1e14\<close>, in the year 1, the sum of the stored numbers differs from the
  budget the script's floats compute, and from the exact product of the float \<open>E\<close> with
  \<open>1e12\<close> and \<open>3.664\<close>, because each of the three divisions of the chain is rounded.
\<close>

theorem budget_not_exact:
  "annual_budget (Finite 510000000000000) 1 0 0 = Inr (128009224026651143247528076171875 / 2305843009213693952) \<and>
   valof budget = 3552969696969697 / 64 \<and>
   valof E * 10 ^ 12 * (3664 / 1000) = 3814972163040969439453125 / 68719476736 \<and>
   annual_budget (Finite 510000000000000) 1 0 0 \<noteq> Inr (valof budget) \<and>
   annual_budget (Finite 510000000000000) 1 0 0 \<noteq> Inr (valof E * 10 ^ 12 * (3664 / 1000))"
  unfolding annual_budget_example budget_value E_value valof.simps by simp

lemma flux_rate_term:
  assumes im: "1 \<le> im" "im \<le> 12" and A: "1 / 2 ^ 900 \<le> A" "A \<le> 2 ^ 900"
  shows "(1 - 1 / 2 ^ 53) ^ 3 * valof budget / 12
           \<le> valof (flux_rate (Finite A) im) * valof (Finite A)
               * (of_int (dayim ! nat (im - 1)) * 86400) \<and>
         valof (flux_rate (Finite A) im) * valof (Finite A)
               * (of_int (dayim ! nat (im - 1)) * 86400)
           \<le> (1 + 1 / 2 ^ 53) ^ 3 * valof budget / 12"
proof -
  have "1 \<le> dayim ! nat (im - 1)" "dayim ! nat (im - 1) \<le> 366"
    using month_tables(7,8)[OF im] by simp_all
  from month_term[OF this A] obtain r where
    r: "flux_rate (Finite A) im = Finite r"
    "(1 - 1 / 2 ^ 53) ^ 3 * valof budget
       \<le> 12 * (r * A * (of_int (dayim ! nat (im - 1)) * 86400))"
    "12 * (r * A * (of_int (dayim ! nat (im - 1)) * 86400))
       \<le> (1 + 1 / 2 ^ 53) ^ 3 * valof budget"
    unfolding flux_rate_def by blast
  define t where "t = r * A * (of_int (dayim ! nat (im - 1)) * 86400)"
  define lo where "lo = (1 - 1 / 2 ^ 53) ^ 3 * valof budget"
  define hi where "hi = (1 + 1 / 2 ^ 53) ^ 3 * valof budget"
  have "lo \<le> 12 * t" "12 * t \<le> hi" using r(2,3) by (simp_all add: t_def lo_def hi_def)
  then have "lo / 12 \<le> t" "t \<le> hi / 12" by simp_all
  then show ?thesis unfolding r(1) valof.simps t_def lo_def hi_def by simp
qed

text \<open>
  Claim C9, amended. For every year in \<open>[1, 250]\<close>, every grid cell and every finite total
  area between \<open>2\<^sup>-\<^sup>9\<^sup>0\<^sup>0\<close> and \<open>2\<^sup>9\<^sup>0\<^sup>0\<close>, the sum over the twelve months of flux times total
  area times the seconds of the month differs from the budget \<open>E * 1e12 * 3.664\<close> of the
  script's floats by at most the fraction \<open>2\<^sup>-\<^sup>5\<^sup>1\<close> of that budget. This does not depend on
  how the days are apportioned among the months: whatever the number of days of a month,
  from 1 to 366, the flux the chain computes for it, times the total area and the seconds
  of the month, is one twelfth of the budget up to the same fraction.
\<close>

theorem budget_conserved_up_to_rounding:
  assumes "1 \<le> iy" "iy \<le> 250" "lat < 96" "lon < 144" "1 / 2 ^ 900 \<le> A" "A \<le> 2 ^ 900"
  shows "(\<exists>S. annual_budget (Finite A) iy lat lon = Inr S \<and>
              \<bar>S - valof budget\<bar> \<le> valof budget / 2 ^ 51) \<and>
         (\<forall>d. 1 \<le> d \<and> d \<le> 366 \<longrightarrow>
            (\<exists>r. fdiv (fdiv (fdiv budget (float_of_int (d * 86400))) (Finite A)) (float_of_int 12)
                   = Finite r \<and>
                 \<bar>r * A * (of_int d * 86400) - valof budget / 12\<bar>
                   \<le> valof budget / 12 / 2 ^ 51))"
proof -
  define X where "X = valof budget"
  define f where "f = (\<lambda>im. valof (flux_rate (Finite A) im) * valof (Finite A)
                           * (of_int (dayim ! nat (im - 1)) * 86400))"
  define S where "S = sum_list (map f [1..12])"
  have Xpos: "0 < X" by (simp add: X_def budget_value)
  have b: "(1 - 1 / 2 ^ 53) ^ 3 * X / 12 \<le> f im \<and> f im \<le> (1 + 1 / 2 ^ 53) ^ 3 * X / 12"
    if "im \<in> set [1..12]" for im
  proof -
    have "1 \<le> im" "im \<le> 12" using that by simp_all
    from flux_rate_term[OF this assms(5,6)] show ?thesis by (simp add: f_def X_def)
  qed
  have "of_nat (length [1..12 :: int]) * ((1 - 1 / 2 ^ 53) ^ 3 * X / 12) \<le> S \<and>
        S \<le> of_nat (length [1..12 :: int]) * ((1 + 1 / 2 ^ 53) ^ 3 * X / 12)"
    unfolding S_def by (rule sum_list_bounds) (rule b)
  then have s: "(1 - 1 / 2 ^ 53) ^ 3 * X \<le> S" "S \<le> (1 + 1 / 2 ^ 53) ^ 3 * X"
    by simp_all
  have c: "(1::rat) - 1 / 2 ^ 51 \<le> (1 - 1 / 2 ^ 53) ^ 3" "(1 + 1 / 2 ^ 53) ^ 3 \<le> (1::rat) + 1 / 2 ^ 51"
    by (simp_all add: power_divide)
  have "(1 - 1 / 2 ^ 51) * X \<le> (1 - 1 / 2 ^ 53) ^ 3 * X"
    "(1 + 1 / 2 ^ 53) ^ 3 * X \<le> (1 + 1 / 2 ^ 51) * X"
    using c Xpos by (simp_all only: mult_right_mono less_imp_le)
  then have "(1 - 1 / 2 ^ 51) * X \<le> S" "S \<le> (1 + 1 / 2 ^ 51) * X"
    using s by (blast intro: order_trans)+
  then have "X - X / 2 ^ 51 \<le> S" "S \<le> X + X / 2 ^ 51"
    by (simp_all add: algebra_simps)
  then have "\<bar>S - X\<bar> \<le> X / 2 ^ 51"
    unfolding abs_le_iff by linarith
  moreover have "annual_budget (Finite A) iy lat lon = Inr S"
    unfolding annual_budget_filled[OF assms(1-4)] S_def f_def ..
  ultimately have year: "\<exists>S. annual_budget (Finite A) iy lat lon = Inr S \<and>
      \<bar>S - valof budget\<bar> \<le> valof budget / 2 ^ 51"
    unfolding X_def by blast
  have month: "\<exists>r. fdiv (fdiv (fdiv budget (float_of_int (d * 86400))) (Finite A)) (float_of_int 12)
                   = Finite r \<and>
                 \<bar>r * A * (of_int d * 86400) - valof budget / 12\<bar>
                   \<le> valof budget / 12 / 2 ^ 51"
    if d: "1 \<le> d" "d \<le> 366" for d
  proof -
    from month_term[OF d assms(5,6)] obtain r where
      r: "fdiv (fdiv (fdiv budget (float_of_int (d * 86400))) (Finite A)) (float_of_int 12)
          = Finite r"
      "(1 - 1 / 2 ^ 53) ^ 3 * X \<le> 12 * (r * A * (of_int d * 86400))"
      "12 * (r * A * (of_int d * 86400)) \<le> (1 + 1 / 2 ^ 53) ^ 3 * X"
      unfolding X_def by blast
    define t where "t = r * A * (of_int d * 86400)"
    have "(1 - 1 / 2 ^ 51) * X \<le> 12 * t" "12 * t \<le> (1 + 1 / 2 ^ 51) * X"
      using r(2,3) \<open>(1 - 1 / 2 ^ 51) * X \<le> (1 - 1 / 2 ^ 53) ^ 3 * X\<close>
        \<open>(1 + 1 / 2 ^ 53) ^ 3 * X \<le> (1 + 1 / 2 ^ 51) * X\<close>
      unfolding t_def by (blast intro: order_trans)+
    then have "X / 12 - X / 12 / 2 ^ 51 \<le> t" "t \<le> X / 12 + X / 12 / 2 ^ 51"
      by (simp_all add: algebra_simps)
    then have "\<bar>t - X / 12\<bar> \<le> X / 12 / 2 ^ 51"
      unfolding abs_le_iff by linarith
    then show ?thesis using r(1) unfolding t_def X_def by blast
  qed
  show ?thesis using year month by blast
qed

theorem budget_conserved_up_to_rounding_witness:
  "annual_budget (Finite 510000000000000) 1 0 0 = Inr (128009224026651143247528076171875 / 2305843009213693952) \<and>
   valof budget = 3552969696969697 / 64 \<and>
   \<bar>128009224026651143247528076171875 / 2305843009213693952 - 3552969696969697 / 64\<bar> \<le> (3552969696969697 / 64) / (2 ^ 51 :: rat) \<and>
   (\<exists>r. fdiv (fdiv (fdiv budget (float_of_int (29 * 86400))) (Finite 510000000000000))
              (float_of_int 12) = Finite r \<and>
        \<bar>r * 510000000000000 * (29 * 86400) - valof budget / 12\<bar>
          \<le> valof budget / 12 / 2 ^ 51)"
proof -
  have i: "(1::int) \<le> 1" "(1::int) \<le> 250" "(0::nat) < 96" "(0::nat) < 144"
    "(1::rat) / 2 ^ 900 \<le> 510000000000000" "(510000000000000::rat) \<le> 2 ^ 900"
    by simp_all
  note t = budget_conserved_up_to_rounding[OF i]
  from t[THEN conjunct2, rule_format, of 29]
  have m: "\<exists>r. fdiv (fdiv (fdiv budget (float_of_int (29 * 86400))) (Finite 510000000000000))
              (float_of_int 12) = Finite r \<and>
        \<bar>r * 510000000000000 * (29 * 86400) - valof budget / 12\<bar>
          \<le> valof budget / 12 / 2 ^ 51"
    by simp
  from t[THEN conjunct1]
  have y: "\<bar>128009224026651143247528076171875 / 2305843009213693952 - 3552969696969697 / 64\<bar>
           \<le> (3552969696969697 / 64) / (2 ^ 51 :: rat)"
    unfolding annual_budget_example budget_value valof.simps by simp
  have b: "valof budget = 3552969696969697 / 64"
    unfolding budget_value by simp
  show ?thesis
    using y m annual_budget_example b by blast
qed


section \<open>The run of the script\<close>

lemma co2flx_filled_shape:
  "length (co2flx (filled sy a 3000)) = 3000"
  "i < 3000 \<Longrightarrow> length (co2flx (filled sy a 3000) ! i) = 96"
  "i < 3000 \<Longrightarrow> j < 96 \<Longrightarrow> length (co2flx (filled sy a 3000) ! i ! j) = 144"
proof -
  show "length (co2flx (filled sy a 3000)) = 3000" by (simp add: filled_def)
  assume i: "i < 3000"
  obtain v where v: "co2flx (filled sy a 3000) ! i = full v"
    unfolding filled_nth(5)[OF i] using flux_at_uniform by blast
  show "length (co2flx (filled sy a 3000) ! i) = 96"
    unfolding v by (simp add: full_def nlat_def)
  assume "j < 96"
  then show "length (co2flx (filled sy a 3000) ! i ! j) = 144"
    unfolding v by (simp add: full_def nlat_def nlon_def)
qed

lemma shape3_filled: "shape3 (co2flx (filled sy a 3000)) = [3000, 96, 144]"
proof -
  let ?c = "co2flx (filled sy a 3000)"
  have n: "?c \<noteq> []" using co2flx_filled_shape(1)[of sy a] by auto
  then have h: "hd ?c = ?c ! 0" by (rule hd_conv_nth)
  have "length (?c ! 0) = 96" by (rule co2flx_filled_shape(2)) simp
  then have "?c ! 0 \<noteq> []" by auto
  then have hh: "hd (?c ! 0) = ?c ! 0 ! 0" by (rule hd_conv_nth)
  show ?thesis
    unfolding shape3_def h hh
    using co2flx_filled_shape(1)[of sy a] co2flx_filled_shape(2)[of 0 sy a]
      co2flx_filled_shape(3)[of 0 0 sy a] by simp
qed

lemma prepare_cases:
  "\<not> importable env \<Longrightarrow> prepare env = Inl ImportFailed"
  "importable env \<Longrightarrow> area_file env = None \<Longrightarrow> prepare env = Inl (MissingFile area_path)"
  "importable env \<Longrightarrow> area_file env = Some area \<Longrightarrow> area ''areacella'' = None \<Longrightarrow>
     prepare env = Inl (KeyError ''areacella'')"
  "importable env \<Longrightarrow> area_file env = Some area \<Longrightarrow> area ''areacella'' = Some a \<Longrightarrow>
     template_file env = None \<Longrightarrow> prepare env = Inl (MissingFile template_path)"
  "importable env \<Longrightarrow> area_file env = Some area \<Longrightarrow> area ''areacella'' = Some a \<Longrightarrow>
     template_file env = Some tpl \<Longrightarrow> var_dims tpl ''CO2_flux'' = None \<Longrightarrow>
     prepare env = Inl (KeyError ''CO2_flux'')"
  "importable env \<Longrightarrow> area_file env = Some area \<Longrightarrow> area ''areacella'' = Some a \<Longrightarrow>
     template_file env = Some tpl \<Longrightarrow> var_dims tpl ''CO2_flux'' = Some names \<Longrightarrow>
     dim_sizes tpl ''time'' = None \<Longrightarrow> prepare env = Inl (MissingDimension ''time'')"
  "importable env \<Longrightarrow> area_file env = Some area \<Longrightarrow> area ''areacella'' = Some a \<Longrightarrow>
     template_file env = Some tpl \<Longrightarrow> var_dims tpl ''CO2_flux'' = Some names \<Longrightarrow>
     dim_sizes tpl ''time'' = Some n \<Longrightarrow>
     var_shape (tpl\<lparr> dim_sizes := (dim_sizes tpl)(''time'' \<mapsto> min n 3000) \<rparr>) names
       \<noteq> [3000, 96, 144] \<Longrightarrow>
     prepare env = Inl ShapeMismatch"
  "importable env \<Longrightarrow> area_file env = Some area \<Longrightarrow> area ''areacella'' = Some a \<Longrightarrow>
     template_file env = Some tpl \<Longrightarrow> var_dims tpl ''CO2_flux'' = Some names \<Longrightarrow>
     dim_sizes tpl ''time'' = Some n \<Longrightarrow>
     var_shape (tpl\<lparr> dim_sizes := (dim_sizes tpl)(''time'' \<mapsto> min n 3000) \<rparr>) names
       = [3000, 96, 144] \<Longrightarrow>
     prepare env = Inr (assign_attrs
       \<lparr> grid = tpl\<lparr> dim_sizes := (dim_sizes tpl)(''time'' \<mapsto> min n 3000) \<rparr>,
         CO2_flux = co2flx (filled start_year a 3000) \<rparr>)"
  by (simp_all add: prepare_def import_modules_def open_file_def lookup_def
      fill_arrays_filled isel_time_def assign_values_def shape3_filled)



lemma env_3192_fields:
  "importable env_3192" "area_file env_3192 = Some [''areacella'' \<mapsto> Finite 510000000000000]"
  "template_file env_3192 = Some template_3192" "writer env_3192 ds = None"
  "var_dims template_3192 ''CO2_flux'' = Some [''time'', ''lat'', ''lon'']"
  "dim_sizes template_3192 ''time'' = Some 3192"
  "var_shape template_3192 [''time'', ''lat'', ''lon''] = [3192, 96, 144]"
  "var_shape (template_3192\<lparr> dim_sizes := (dim_sizes template_3192)(''time'' \<mapsto> min 3192 3000) \<rparr>)
     [''time'', ''lat'', ''lon''] = [3000, 96, 144]"
  by (simp_all add: env_3192_def template_3192_def var_shape_def)

lemma prepare_env_3192:
  "prepare env_3192 = Inr (assign_attrs
     \<lparr> grid = template_3192\<lparr> dim_sizes := (dim_sizes template_3192)(''time'' \<mapsto> min 3192 3000) \<rparr>,
       CO2_flux = co2flx (filled start_year (Finite 510000000000000) 3000) \<rparr>)"
  by (rule prepare_cases(8)[OF env_3192_fields(1,2) _ env_3192_fields(3,5,6,8)]) simp


text \<open>
  Claim C5 says that the written \<^verbatim>\<open>CO2_flux\<close> array, of shape \<open>(3000, 96, 144)\<close>, has the
  shape of the template's \<^verbatim>\<open>CO2_flux\<close> variable, the output matching the template's
  temporal grid. With a template of 3192 monthly steps, the one the script names, the run
  completes and writes an array of 3000 steps, while the template declares 3192.
\<close>

theorem template_declares_more_steps:
  "raised (run env_3192) = None \<and>
   map_option (shape3 \<circ> CO2_flux) (written (run env_3192)) = Some [3000, 96, 144] \<and>
   template_file env_3192 = Some template_3192 \<and>
   var_dims template_3192 ''CO2_flux'' = Some [''time'', ''lat'', ''lon''] \<and>
   var_shape template_3192 [''time'', ''lat'', ''lon''] = [3192, 96, 144]"
  by (simp add: run_def prepare_env_3192 env_3192_fields assign_attrs_def shape3_filled)

text \<open>
  Claim C5, amended. When the run completes, the written \<^verbatim>\<open>CO2_flux\<close> array has the shape
  \<open>(3000, 96, 144)\<close>, every time step holding 96 rows of 144 entries, and this is the shape
  of the template's \<^verbatim>\<open>CO2_flux\<close> variable once the template has been cut to its first 3000
  time steps, which is the dataset that is written; the template itself may declare more
  steps.
\<close>

theorem written_shape:
  assumes "run env = \<lparr> raised = None, written = Some out \<rparr>"
  shows "shape3 (CO2_flux out) = [3000, 96, 144] \<and>
         length (CO2_flux out) = 3000 \<and>
         (\<forall>i j. i < 3000 \<and> j < 96 \<longrightarrow>
            length (CO2_flux out ! i) = 96 \<and> length (CO2_flux out ! i ! j) = 144) \<and>
         (\<exists>tpl n names. template_file env = Some tpl \<and> dim_sizes tpl ''time'' = Some n \<and>
            var_dims tpl ''CO2_flux'' = Some names \<and>
            dim_sizes (grid out) = (dim_sizes tpl)(''time'' \<mapsto> min n 3000) \<and>
            var_dims (grid out) = var_dims tpl \<and>
            var_shape (grid out) names = [3000, 96, 144])"
proof -
  from assms obtain p where p: "prepare env = Inr p" and w: "writer env p = None" and o: "out = p"
    by (auto simp: run_def failed_def split: sum.splits option.splits)
  from p obtain area a tpl names n where
    e: "area_file env = Some area" "area ''areacella'' = Some a" "template_file env = Some tpl"
      "var_dims tpl ''CO2_flux'' = Some names" "dim_sizes tpl ''time'' = Some n"
      "var_shape (tpl\<lparr> dim_sizes := (dim_sizes tpl)(''time'' \<mapsto> min n 3000) \<rparr>) names
         = [3000, 96, 144]"
      "p = assign_attrs
         \<lparr> grid = tpl\<lparr> dim_sizes := (dim_sizes tpl)(''time'' \<mapsto> min n 3000) \<rparr>,
           CO2_flux = co2flx (filled start_year a 3000) \<rparr>"
    by (auto simp: prepare_def import_modules_def open_file_def lookup_def
        fill_arrays_filled isel_time_def assign_values_def shape3_filled
        split: if_splits option.splits)
  have c: "CO2_flux out = co2flx (filled start_year a 3000)"
    and g: "dim_sizes (grid out) = (dim_sizes tpl)(''time'' \<mapsto> min n 3000)"
      "var_dims (grid out) = var_dims tpl"
    unfolding o e(7) by (simp_all add: assign_attrs_def)
  have v: "var_shape (grid out) names = [3000, 96, 144]"
    using e(6) g(1) by (simp add: var_shape_def)
  show ?thesis
    unfolding c using shape3_filled co2flx_filled_shape e(3,4,5) g v
    by auto
qed

theorem written_shape_witness:
  "\<exists>out. run env_3192 = \<lparr> raised = None, written = Some out \<rparr> \<and>
     shape3 (CO2_flux out) = [3000, 96, 144] \<and>
     length (CO2_flux out ! 2999 ! 95) = 144 \<and>
     dim_sizes (grid out) ''time'' = Some 3000 \<and>
     var_shape (grid out) [''time'', ''lat'', ''lon''] = [3000, 96, 144]"
proof -
  let ?out = "assign_attrs
     \<lparr> grid = template_3192\<lparr> dim_sizes := (dim_sizes template_3192)(''time'' \<mapsto> min 3192 3000) \<rparr>,
       CO2_flux = co2flx (filled start_year (Finite 510000000000000) 3000) \<rparr>"
  have r: "run env_3192 = \<lparr> raised = None, written = Some ?out \<rparr>"
    by (simp add: run_def prepare_env_3192 env_3192_fields)
  from written_shape[OF r] show ?thesis
    using r by (auto simp: env_3192_fields)
qed


end
